theory Spec2Isabelle
  imports Main "HOL-Library.List_Lexorder" "HOL-Library.Product_Lexorder"
    "HOL-Library.Multiset"
begin

section \<open>Python values: errors, dictionaries, lists\<close>

text \<open>
  The engine of \<^verbatim>\<open>faster_neighbors_revisited.py\<close> works on Python integers (node
  identifiers and labels, modelled as \<^typ>\<open>int\<close>), on dictionaries keyed by nodes and on
  lists. Every exception the source can raise is a value of \<open>error\<close>; a function that can
  raise returns \<open>error + 'a\<close>, with \<open>Inl\<close> for the exception.
\<close>

datatype error = ValueError | IndexError | KeyError | AttributeError

text \<open>
  A dictionary is an association list in insertion order with distinct keys:
  \<^verbatim>\<open>d[k]\<close> is \<open>dict_get\<close> (KeyError on a missing key), \<^verbatim>\<open>d[k] = v\<close> is \<open>dict_set\<close>
  (an existing key keeps its place, a new key goes to the end), a comprehension
  \<^verbatim>\<open>{k: v for ...}\<close> is \<open>dict_of\<close> of the generated pairs.
\<close>

type_synonym dict = "(int \<times> int) list"

definition dict_get :: "(int \<times> 'v) list \<Rightarrow> int \<Rightarrow> error + 'v" where
  "dict_get d k = (case map_of d k of None \<Rightarrow> Inl KeyError | Some v \<Rightarrow> Inr v)"

fun dict_set :: "(int \<times> 'v) list \<Rightarrow> int \<Rightarrow> 'v \<Rightarrow> (int \<times> 'v) list" where
  "dict_set [] k v = [(k, v)]"
| "dict_set ((k', v') # d) k v = (if k' = k then (k, v) # d else (k', v') # dict_set d k v)"

definition dict_of :: "(int \<times> 'v) list \<Rightarrow> (int \<times> 'v) list" where
  "dict_of kvs = foldl (\<lambda>d (k, v). dict_set d k v) [] kvs"

text \<open>\<^verbatim>\<open>[f(x) for x in xs]\<close> where \<^verbatim>\<open>f\<close> may raise: the first exception ends the loop.\<close>

fun map_err :: "('a \<Rightarrow> error + 'b) \<Rightarrow> 'a list \<Rightarrow> error + 'b list" where
  "map_err f [] = Inr []"
| "map_err f (x # xs) =
     (case f x of Inl e \<Rightarrow> Inl e
      | Inr y \<Rightarrow> (case map_err f xs of Inl e \<Rightarrow> Inl e | Inr ys \<Rightarrow> Inr (y # ys)))"

text \<open>\<^verbatim>\<open>max(xs)\<close> raises ValueError on an empty sequence; \<^verbatim>\<open>xs[-1]\<close> raises IndexError.\<close>

definition py_max :: "int list \<Rightarrow> error + int" where
  "py_max xs = (case xs of [] \<Rightarrow> Inl ValueError | y # ys \<Rightarrow> Inr (fold max ys y))"

definition py_last :: "'a list \<Rightarrow> error + 'a" where
  "py_last xs = (case xs of [] \<Rightarrow> Inl IndexError | _ # _ \<Rightarrow> Inr (last xs))"

section \<open>Graphs\<close>

text \<open>
  The source uses \<^verbatim>\<open>networkx.Graph\<close>, an undirected simple graph. The model keeps what
  the engine observes of it: \<open>nodes\<close> is \<^verbatim>\<open>list(G.nodes())\<close> (insertion order, no
  repetition) and \<open>edges\<close> is \<^verbatim>\<open>list(G.edges())\<close> (each edge once, as a pair).
  \<open>add_node\<close> and \<open>add_edge\<close> are the library's: an existing node or edge is not added
  again, and \<open>add_edge\<close> adds missing endpoints. The engine reads the edge order only of
  its input graph; of a graph it builds it reads nodes, neighbours and distances.
\<close>

record graph =
  nodes :: "int list"
  edges :: "(int \<times> int) list"

definition empty_graph :: graph where
  "empty_graph = \<lparr>nodes = [], edges = []\<rparr>"

definition has_edge :: "graph \<Rightarrow> int \<Rightarrow> int \<Rightarrow> bool" where
  "has_edge G u v \<longleftrightarrow> (u, v) \<in> set (edges G) \<or> (v, u) \<in> set (edges G)"

definition add_node :: "graph \<Rightarrow> int \<Rightarrow> graph" where
  "add_node G n = (if n \<in> set (nodes G) then G else G\<lparr>nodes := nodes G @ [n]\<rparr>)"

definition add_edge :: "graph \<Rightarrow> int \<Rightarrow> int \<Rightarrow> graph" where
  "add_edge G u v =
     (let G' = add_node (add_node G u) v
      in if has_edge G' u v then G' else G'\<lparr>edges := edges G' @ [(u, v)]\<rparr>)"

definition neighbors :: "graph \<Rightarrow> int \<Rightarrow> int list" where
  "neighbors G n =
     remdups (map snd (filter (\<lambda>e. fst e = n) (edges G)) @
              map fst (filter (\<lambda>e. snd e = n) (edges G)))"

section \<open>GraphExpander: \<^verbatim>\<open>expand_graph\<close>\<close>

text \<open>
  The first loop of \<^verbatim>\<open>expand_graph\<close>: every node of the sorted node list is added to
  the new graph and its label is copied (KeyError when the label map has no entry).
\<close>

fun expand_nodes :: "int list \<Rightarrow> dict \<Rightarrow> graph \<times> dict \<Rightarrow> error + graph \<times> dict" where
  "expand_nodes [] external_labels (new_G, new_labels) = Inr (new_G, new_labels)"
| "expand_nodes (node # node_list) external_labels (new_G, new_labels) =
     (case dict_get external_labels node of
        Inl e \<Rightarrow> Inl e
      | Inr l \<Rightarrow> expand_nodes node_list external_labels
                 (add_node new_G node, dict_set new_labels node l))"

text \<open>
  The second loop: every edge gets the next fresh identifier, which becomes a node
  joined to both endpoints and labelled \<open>edge_label\<close>.
\<close>

fun expand_edges :: "(int \<times> int) list \<Rightarrow> int \<Rightarrow> int \<Rightarrow> graph \<times> dict \<Rightarrow> graph \<times> dict" where
  "expand_edges [] edge_label next_node_label (new_G, new_labels) = (new_G, new_labels)"
| "expand_edges (edge # es) edge_label next_node_label (new_G, new_labels) =
     (let next_node_label = next_node_label + 1;
          new_G = add_node new_G next_node_label;
          new_G = add_edge new_G (fst edge) next_node_label;
          new_G = add_edge new_G (snd edge) next_node_label;
          new_labels = dict_set new_labels next_node_label edge_label
      in expand_edges es edge_label next_node_label (new_G, new_labels))"

definition expand_graph :: "graph \<Rightarrow> dict \<Rightarrow> error + graph \<times> dict" where
  "expand_graph G external_labels =
     (case py_max (map snd external_labels) of
        Inl e \<Rightarrow> Inl e
      | Inr m \<Rightarrow>
          (let edge_label = m + 1;
               node_list = sort (nodes G)
           in case py_last node_list of
                Inl e \<Rightarrow> Inl e
              | Inr next_node_label \<Rightarrow>
                  (case expand_nodes node_list external_labels (empty_graph, []) of
                     Inl e \<Rightarrow> Inl e
                   | Inr start \<Rightarrow>
                       Inr (expand_edges (edges G) edge_label next_node_label start))))"

section \<open>PartitionRefiner, plain mode\<close>

text \<open>
  An engine instance built with \<^verbatim>\<open>nodewise=False\<close>. The fields are the attributes the
  constructor sets (\<open>self_x\<close> for \<^verbatim>\<open>self.x\<close>); \<^verbatim>\<open>mapping_to_neighbors[n]\<close> is \<^verbatim>\<open>set(G.neighbors(n))\<close> and is read
  off the graph. The type parameter is the type of the sort keys kept in
  \<open>label_definitions\<close>: a pair of a label and the sorted labels of the neighbours in
  plain mode, a pair of a label and a plain sub-instance in nodewise mode.
\<close>

record 'k fnr =
  self_G :: graph
  self_nodes :: "int list"
  self_internal_labels :: dict
  self_external_labels :: dict
  self_higher_than_any_internal_label :: int
  self_label_definitions :: "'k list"
  self_label_pairings :: "(int \<times> int) list option"

type_synonym plain_key = "int \<times> int list"
type_synonym plain = "plain_key fnr"

text \<open>
  \<^verbatim>\<open>max(len(self.nodes), max([l for n, l in self.internal_labels.items()]) + 1)\<close>
\<close>

definition compute_higher_than_any_internal_label :: "int list \<Rightarrow> dict \<Rightarrow> error + int" where
  "compute_higher_than_any_internal_label ns labels =
     (case py_max (map snd labels) of
        Inl e \<Rightarrow> Inl e
      | Inr m \<Rightarrow> Inr (max (int (length ns)) (m + 1)))"

text \<open>
  \<^verbatim>\<open>get_new_ids_in_order\<close>, the branch for \<^verbatim>\<open>nodewise=False\<close>: the key of a node is its
  label and the sorted labels of its neighbours; the nodes are sorted by key with
  Python's stable sort. Tuples and lists of integers compare lexicographically.
\<close>

definition plain_id :: "graph \<Rightarrow> dict \<Rightarrow> int \<Rightarrow> error + int \<times> plain_key" where
  "plain_id G labels node =
     (case map_err (dict_get labels) (neighbors G node) of
        Inl e \<Rightarrow> Inl e
      | Inr nbs \<Rightarrow>
          (case dict_get labels node of
             Inl e \<Rightarrow> Inl e
           | Inr l \<Rightarrow> Inr (node, (l, sort nbs))))"

definition get_new_ids_in_order_plain ::
  "graph \<Rightarrow> int list \<Rightarrow> dict \<Rightarrow> error + (int \<times> plain_key) list" where
  "get_new_ids_in_order_plain G ns labels =
     (case map_err (plain_id G labels) ns of
        Inl e \<Rightarrow> Inl e
      | Inr ids \<Rightarrow> Inr (sort_key snd ids))"

text \<open>
  \<^verbatim>\<open>assign_new_labels_for_sorted_ids\<close>. The comparison \<^verbatim>\<open>prev != current[1]\<close> is a
  parameter, since it is structural on plain keys and goes through \<^verbatim>\<open>__eq__\<close> on
  nodewise keys, where it can raise. The result is the new label dictionary and the
  new \<^verbatim>\<open>label_definitions\<close>.
\<close>

fun assign_loop ::
  "('k \<Rightarrow> 'k \<Rightarrow> error + bool) \<Rightarrow> (int \<times> 'k) list \<Rightarrow> 'k option \<Rightarrow> int \<Rightarrow> dict \<Rightarrow> 'k list
     \<Rightarrow> error + dict \<times> 'k list" where
  "assign_loop ne [] prev next_numeric_label new_labels defs = Inr (new_labels, defs)"
| "assign_loop ne (current # rest) prev next_numeric_label new_labels defs =
     (case (case prev of None \<Rightarrow> Inr True | Some p \<Rightarrow> ne p (snd current)) of
        Inl e \<Rightarrow> Inl e
      | Inr changed \<Rightarrow>
          (let next_numeric_label =
                 (if changed then next_numeric_label + 1 else next_numeric_label);
               defs = (if changed then defs @ [snd current] else defs)
           in assign_loop ne rest (Some (snd current)) next_numeric_label
                (dict_set new_labels (fst current) next_numeric_label) defs))"

definition assign_new_labels_for_sorted_ids ::
  "('k \<Rightarrow> 'k \<Rightarrow> error + bool) \<Rightarrow> (int \<times> 'k) list \<Rightarrow> error + dict \<times> 'k list" where
  "assign_new_labels_for_sorted_ids ne sorted_ids = assign_loop ne sorted_ids None (- 1) [] []"

definition ne_plain :: "plain_key \<Rightarrow> plain_key \<Rightarrow> error + bool" where
  "ne_plain a b = Inr (a \<noteq> b)"

text \<open>
  \<^verbatim>\<open>are_new_labels_effectively_the_same\<close>: the loop over \<^verbatim>\<open>self.nodes\<close> with the two
  dictionaries of group identifiers (label to first node seen with it).
\<close>

fun same_loop :: "int list \<Rightarrow> dict \<Rightarrow> dict \<Rightarrow> dict \<Rightarrow> dict \<Rightarrow> error + bool" where
  "same_loop [] labels new_labels old_group_identifiers new_group_identifiers = Inr True"
| "same_loop (node # ns) labels new_labels old_group_identifiers new_group_identifiers =
     (case dict_get labels node of
        Inl e \<Rightarrow> Inl e
      | Inr old_label \<Rightarrow>
     (case dict_get new_labels node of
        Inl e \<Rightarrow> Inl e
      | Inr new_label \<Rightarrow>
          (let old_group_identifiers =
                 (if map_of old_group_identifiers old_label = None
                  then dict_set old_group_identifiers old_label node
                  else old_group_identifiers);
               new_group_identifiers =
                 (if map_of new_group_identifiers new_label = None
                  then dict_set new_group_identifiers new_label node
                  else new_group_identifiers)
           in case dict_get old_group_identifiers old_label of
                Inl e \<Rightarrow> Inl e
              | Inr old_rep \<Rightarrow>
             (case dict_get new_group_identifiers new_label of
                Inl e \<Rightarrow> Inl e
              | Inr new_rep \<Rightarrow>
                  if old_rep \<noteq> new_rep then Inr False
                  else same_loop ns labels new_labels
                         old_group_identifiers new_group_identifiers))))"

definition are_new_labels_effectively_the_same :: "int list \<Rightarrow> dict \<Rightarrow> dict \<Rightarrow> error + bool" where
  "are_new_labels_effectively_the_same ns labels new_labels =
     same_loop ns labels new_labels [] []"

text \<open>The number of distinct labels the nodes carry (a measure, not source code).\<close>

definition label_count :: "int list \<Rightarrow> dict \<Rightarrow> nat" where
  "label_count ns labels = card (map_of labels ` set ns)"

subsection \<open>Facts about dictionaries and one refinement round\<close>

lemma map_of_dict_set: "map_of (dict_set d k v) = (map_of d)(k \<mapsto> v)"
  by (induction d k v rule: dict_set.induct) (auto simp: fun_eq_iff)

lemma dict_get_Inr: "dict_get d k = Inr v \<longleftrightarrow> map_of d k = Some v"
  by (auto simp: dict_get_def split: option.splits)

lemma dict_get_Inl: "dict_get d k = Inl e \<longleftrightarrow> map_of d k = None \<and> e = KeyError"
  by (auto simp: dict_get_def split: option.splits)

lemma map_err_Inr: "map_err f xs = Inr ys \<longleftrightarrow> list_all2 (\<lambda>x y. f x = Inr y) xs ys"
proof (induction xs arbitrary: ys)
  case Nil
  then show ?case by auto
next
  case (Cons x xs)
  show ?case
  proof (cases ys)
    case Nil
    then show ?thesis by (auto split: sum.splits)
  next
    case (Cons y ys')
    show ?thesis
      unfolding Cons by (cases "f x"; cases "map_err f xs") (auto simp: Cons.IH[symmetric])
  qed
qed

lemma assign_loop_refines:
  assumes "assign_loop ne ids prev nxt nl defs = Inr (nl', defs')"
    and "\<forall>(n, k) \<in> set ids. fst k = prim n"
    and "\<forall>a b c. ne a b = Inr c \<longrightarrow> fst a \<noteq> fst b \<longrightarrow> c"
    and "\<forall>n l. map_of nl n = Some l \<longrightarrow> l \<le> nxt \<and> prim n = f l"
    and "\<forall>p. prev = Some p \<longrightarrow> f nxt = fst p"
  shows "\<exists>f'. \<forall>n l. map_of nl' n = Some l \<longrightarrow> prim n = f' l"
  using assms
proof (induction ids arbitrary: prev nxt nl defs f)
  case Nil
  then show ?case by auto
next
  case (Cons cur rest)
  obtain ch where ch: "(case prev of None \<Rightarrow> Inr True | Some p \<Rightarrow> ne p (snd cur)) = Inr ch"
    using Cons.prems(1) by (auto split: sum.splits)
  define nxt' where "nxt' = (if ch then nxt + 1 else nxt)"
  define defs2 where "defs2 = (if ch then defs @ [snd cur] else defs)"
  define f2 where "f2 = (if ch then f(nxt' := fst (snd cur)) else f)"
  have run: "assign_loop ne rest (Some (snd cur)) nxt' (dict_set nl (fst cur) nxt') defs2 = Inr (nl', defs')"
    using Cons.prems(1) ch by (simp add: nxt'_def defs2_def Let_def)
  have prim_cur: "fst (snd cur) = prim (fst cur)"
    using Cons.prems(2) by (cases cur) auto
  have nch: "\<not> ch \<Longrightarrow> f nxt = fst (snd cur)"
  proof -
    assume n: "\<not> ch"
    then obtain p where p: "prev = Some p" "ne p (snd cur) = Inr False"
      using ch by (cases prev) auto
    then have "fst p = fst (snd cur)" using Cons.prems(3) by blast
    with p Cons.prems(5) show ?thesis by auto
  qed
  have inv1: "\<forall>n l. map_of (dict_set nl (fst cur) nxt') n = Some l \<longrightarrow> l \<le> nxt' \<and> prim n = f2 l"
  proof (intro allI impI)
    fix n l assume a: "map_of (dict_set nl (fst cur) nxt') n = Some l"
    show "l \<le> nxt' \<and> prim n = f2 l"
    proof (cases "n = fst cur")
      case True
      then have "l = nxt'" using a by (simp add: map_of_dict_set)
      then show ?thesis using True nch prim_cur by (auto simp: f2_def nxt'_def)
    next
      case False
      then have "map_of nl n = Some l" using a by (simp add: map_of_dict_set)
      then have "l \<le> nxt" "prim n = f l" using Cons.prems(4) by auto
      then show ?thesis by (auto simp: f2_def nxt'_def)
    qed
  qed
  have inv2: "\<forall>p. Some (snd cur) = Some p \<longrightarrow> f2 nxt' = fst p"
    using nch by (auto simp: f2_def nxt'_def)
  show ?case
    by (rule Cons.IH[OF run _ Cons.prems(3) inv1 inv2]) (use Cons.prems(2) in auto)
qed

lemma assign_loop_dom:
  assumes "assign_loop ne ids prev nxt nl defs = Inr (nl', defs')"
  shows "dom (map_of nl') = dom (map_of nl) \<union> fst ` set ids"
  using assms
proof (induction ids arbitrary: prev nxt nl defs)
  case Nil
  then show ?case by auto
next
  case (Cons cur rest)
  then show ?case
    by (auto split: sum.splits simp: Let_def map_of_dict_set dest!: Cons.IH)
qed

lemma refine_card_less:
  assumes fin: "finite S"
    and ref: "\<forall>n \<in> S. old n = f (new n)"
    and diff: "\<not> (\<forall>a \<in> S. \<forall>b \<in> S. old a = old b \<longleftrightarrow> new a = new b)"
  shows "card (old ` S) < card (new ` S)"
proof -
  have img: "old ` S = f ` (new ` S)" using ref by (auto simp: image_iff)
  have "\<not> inj_on f (new ` S)"
  proof
    assume inj: "inj_on f (new ` S)"
    have "\<forall>a \<in> S. \<forall>b \<in> S. old a = old b \<longleftrightarrow> new a = new b"
      using ref inj by (auto simp: inj_on_def)
    with diff show False by blast
  qed
  then have "card (f ` (new ` S)) \<noteq> card (new ` S)"
    using eq_card_imp_inj_on[of "new ` S" f] fin by auto
  moreover have "card (f ` (new ` S)) \<le> card (new ` S)"
    using fin by (simp add: card_image_le)
  ultimately show ?thesis using img by simp
qed

lemma find_append_hit:
  "P x \<Longrightarrow> find P (xs @ x # ys) = (case find P xs of Some y \<Rightarrow> Some y | None \<Rightarrow> Some x)"
  by (induction xs) auto

lemma find_snoc:
  "find P (xs @ [x]) = (case find P xs of Some y \<Rightarrow> Some y | None \<Rightarrow> if P x then Some x else None)"
  by (induction xs) auto

lemma group_step:
  assumes inv: "\<forall>l. map_of g l = find (\<lambda>m. lab m = Some l) done"
    and l: "lab node = Some l0"
    and g': "g' = (if map_of g l0 = None then dict_set g l0 node else g)"
  shows "\<forall>l. map_of g' l = find (\<lambda>m. lab m = Some l) (done @ [node])"
proof
  fix l
  show "map_of g' l = find (\<lambda>m. lab m = Some l) (done @ [node])"
  proof (cases "l = l0")
    case True
    show ?thesis
    proof (cases "map_of g l0")
      case None
      then have "find (\<lambda>m. lab m = Some l0) done = None" using inv by simp
      then show ?thesis using None True l g' by (simp add: find_snoc map_of_dict_set)
    next
      case (Some r)
      then have "find (\<lambda>m. lab m = Some l0) done = Some r" using inv by simp
      then show ?thesis using Some True g' by (simp add: find_snoc)
    qed
  next
    case False
    have "map_of g' l = map_of g l" using False g' by (simp add: map_of_dict_set)
    also have "\<dots> = find (\<lambda>m. lab m = Some l) done" using inv by simp
    also have "\<dots> = find (\<lambda>m. lab m = Some l) (done @ [node])"
      using False l by (simp add: find_snoc split: option.splits)
    finally show ?thesis .
  qed
qed

lemma same_loop_char:
  assumes "\<forall>n \<in> set rest. map_of old n \<noteq> None \<and> map_of new n \<noteq> None"
    and "\<forall>l. map_of og l = find (\<lambda>m. map_of old m = Some l) done"
    and "\<forall>l. map_of ng l = find (\<lambda>m. map_of new m = Some l) done"
  shows "same_loop rest old new og ng =
         Inr (\<forall>n \<in> set rest. find (\<lambda>m. map_of old m = map_of old n) (done @ rest) =
                              find (\<lambda>m. map_of new m = map_of new n) (done @ rest))"
  using assms
proof (induction rest arbitrary: "done" og ng)
  case Nil
  then show ?case by simp
next
  case (Cons node rest)
  obtain ol nl where ol: "map_of old node = Some ol" and nl: "map_of new node = Some nl"
    using Cons.prems(1) by auto
  define og' where "og' = (if map_of og ol = None then dict_set og ol node else og)"
  define ng' where "ng' = (if map_of ng nl = None then dict_set ng nl node else ng)"
  have og': "\<forall>l. map_of og' l = find (\<lambda>m. map_of old m = Some l) (done @ [node])"
    by (rule group_step[OF Cons.prems(2) ol og'_def])
  have ng': "\<forall>l. map_of ng' l = find (\<lambda>m. map_of new m = Some l) (done @ [node])"
    by (rule group_step[OF Cons.prems(3) nl ng'_def])
  have fo: "find (\<lambda>m. map_of old m = Some ol) (done @ [node]) \<noteq> None"
    using ol by (auto simp: find_snoc split: option.splits)
  have fn: "find (\<lambda>m. map_of new m = Some nl) (done @ [node]) \<noteq> None"
    using nl by (auto simp: find_snoc split: option.splits)
  obtain ro where ro: "map_of og' ol = Some ro" using og' fo by auto
  obtain rn where rn: "map_of ng' nl = Some rn" using ng' fn by auto
  have head: "(find (\<lambda>m. map_of old m = map_of old node) (done @ node # rest) =
               find (\<lambda>m. map_of new m = map_of new node) (done @ node # rest)) \<longleftrightarrow> ro = rn"
  proof -
    have "find (\<lambda>m. map_of old m = map_of old node) (done @ node # rest) = Some ro"
      using ro og' ol by (auto simp: find_append_hit find_snoc split: option.splits)
    moreover have "find (\<lambda>m. map_of new m = map_of new node) (done @ node # rest) = Some rn"
      using rn ng' nl by (auto simp: find_append_hit find_snoc split: option.splits)
    ultimately show ?thesis by simp
  qed
  have IH: "same_loop rest old new og' ng' =
         Inr (\<forall>n \<in> set rest. find (\<lambda>m. map_of old m = map_of old n) ((done @ [node]) @ rest) =
                              find (\<lambda>m. map_of new m = map_of new n) ((done @ [node]) @ rest))"
    by (rule Cons.IH[OF _ og' ng']) (use Cons.prems(1) in auto)
  have step: "same_loop (node # rest) old new og ng =
      (if ro \<noteq> rn then Inr False else same_loop rest old new og' ng')"
    using ol nl ro rn
    by (simp add: dict_get_def og'_def[symmetric] ng'_def[symmetric] Let_def)
  show ?case
    using head by (subst step) (simp add: IH)
qed

lemma find_rep_eq:
  assumes H: "\<forall>n \<in> set ns. find (\<lambda>m. f m = f n) ns = find (\<lambda>m. g m = g n) ns"
    and a: "a \<in> set ns" and b: "b \<in> set ns" and e: "f a = f b"
  shows "g a = g b"
proof -
  obtain r where r: "find (\<lambda>m. f m = f a) ns = Some r"
    using a by (cases "find (\<lambda>m. f m = f a) ns") (auto simp: find_None_iff)
  have "find (\<lambda>m. g m = g a) ns = Some r" using H a r by auto
  moreover have "find (\<lambda>m. g m = g b) ns = Some r" using H b r e by auto
  ultimately have "g r = g a" "g r = g b" by (auto simp: find_Some_iff)
  then show "g a = g b" by simp
qed

lemma find_partition_iff:
  "(\<forall>n \<in> set ns. find (\<lambda>m. old m = old n) ns = find (\<lambda>m. new m = new n) ns) \<longleftrightarrow>
   (\<forall>a \<in> set ns. \<forall>b \<in> set ns. old a = old b \<longleftrightarrow> new a = new b)"
  (is "?L \<longleftrightarrow> ?R")
proof
  assume R: ?R
  show ?L
  proof
    fix n assume n: "n \<in> set ns"
    show "find (\<lambda>m. old m = old n) ns = find (\<lambda>m. new m = new n) ns"
      by (rule find_cong[OF refl]) (use R n in auto)
  qed
next
  assume L: ?L
  have L': "\<forall>n \<in> set ns. find (\<lambda>m. new m = new n) ns = find (\<lambda>m. old m = old n) ns"
    using L by auto
  show ?R
    using find_rep_eq[OF L] find_rep_eq[OF L'] by blast
qed

lemma label_count_le: "label_count ns labels \<le> length ns"
  unfolding label_count_def
  by (meson card_image_le card_length le_trans List.finite_set)

lemma round_increases:
  fixes ids :: "(int \<times> (int \<times> 'x)) list"
  assumes ids: "fst ` set ids = set ns"
    and prim: "\<forall>(n, k) \<in> set ids. map_of labels n = Some (fst k)"
    and ne: "\<forall>a b c. ne a b = Inr c \<longrightarrow> fst a \<noteq> fst b \<longrightarrow> c"
    and asg: "assign_new_labels_for_sorted_ids ne ids = Inr (new, defs)"
    and same: "are_new_labels_effectively_the_same ns labels new = Inr False"
  shows "label_count ns labels < label_count ns new"
proof -
  have run: "assign_loop ne ids None (- 1) [] [] = Inr (new, defs)"
    using asg by (simp add: assign_new_labels_for_sorted_ids_def)
  have dom: "dom (map_of new) = set ns"
    using assign_loop_dom[OF run] ids by simp
  have old_some: "\<forall>n \<in> set ns. map_of labels n \<noteq> None"
    using ids prim by force
  have new_some: "\<forall>n \<in> set ns. map_of new n \<noteq> None"
    using dom by auto
  have prim': "\<forall>(n, k) \<in> set ids. fst k = the (map_of labels n)"
    using prim by auto
  obtain f where f: "\<forall>n l. map_of new n = Some l \<longrightarrow> the (map_of labels n) = f l"
    using assign_loop_refines[OF run prim' ne, where f = "\<lambda>_. 0"] by auto
  have ref: "\<forall>n \<in> set ns. map_of labels n = map_option f (map_of new n)"
  proof
    fix n assume n: "n \<in> set ns"
    obtain l where l: "map_of new n = Some l" using new_some n by auto
    obtain l0 where l0: "map_of labels n = Some l0" using old_some n by auto
    show "map_of labels n = map_option f (map_of new n)"
      using f l l0 by (metis option.sel option.simps(9))
  qed
  have "same_loop ns labels new [] [] =
         Inr (\<forall>n \<in> set ns. find (\<lambda>m. map_of labels m = map_of labels n) ([] @ ns) =
                            find (\<lambda>m. map_of new m = map_of new n) ([] @ ns))"
    by (rule same_loop_char) (use old_some new_some in auto)
  then have "\<not> (\<forall>n \<in> set ns. find (\<lambda>m. map_of labels m = map_of labels n) ns =
                            find (\<lambda>m. map_of new m = map_of new n) ns)"
    using same by (simp add: are_new_labels_effectively_the_same_def)
  then have diff: "\<not> (\<forall>a \<in> set ns. \<forall>b \<in> set ns.
                      map_of labels a = map_of labels b \<longleftrightarrow> map_of new a = map_of new b)"
    using find_partition_iff[of ns "map_of labels" "map_of new"] by blast
  show ?thesis
    unfolding label_count_def
    by (rule refine_card_less[OF _ ref diff]) simp
qed

lemma plain_id_Inr:
  "plain_id G labels node = Inr x \<Longrightarrow> fst x = node \<and> map_of labels node = Some (fst (snd x))"
  by (auto simp: plain_id_def dict_get_Inr split: sum.splits)

lemma get_new_ids_in_order_plain_props:
  assumes "get_new_ids_in_order_plain G ns labels = Inr ids"
  shows "fst ` set ids = set ns" "\<forall>(n, k) \<in> set ids. map_of labels n = Some (fst k)"
proof -
  obtain raw where raw: "map_err (plain_id G labels) ns = Inr raw" and ids: "ids = sort_key snd raw"
    using assms by (auto simp: get_new_ids_in_order_plain_def split: sum.splits)
  have l2: "list_all2 (\<lambda>x y. plain_id G labels x = Inr y) ns raw"
    using raw by (simp add: map_err_Inr)
  then have "list_all2 (\<lambda>x y. fst y = x \<and> map_of labels x = Some (fst (snd y))) ns raw"
    by (rule list_all2_mono) (auto dest: plain_id_Inr)
  then have m: "map fst raw = ns" and p: "\<forall>y \<in> set raw. map_of labels (fst y) = Some (fst (snd y))"
    by (induction ns raw rule: list_all2_induct) auto
  show "fst ` set ids = set ns" using m ids by (metis set_map set_sort)
  show "\<forall>(n, k) \<in> set ids. map_of labels n = Some (fst k)" using p ids by auto
qed

lemma ne_plain_fst: "\<forall>a b c. ne_plain a b = Inr c \<longrightarrow> fst a \<noteq> fst b \<longrightarrow> c"
  by (auto simp: ne_plain_def)

text \<open>
  The \<^verbatim>\<open>while True\<close> loop of the constructor, plain mode. \<open>counter\<close> counts the rounds
  whose labels were adopted. The loop ends: a round that fails the fixpoint test has
  strictly more distinct labels than the one before, and there are at most as many
  distinct labels as nodes.
\<close>

function refine_plain ::
  "graph \<Rightarrow> int list \<Rightarrow> dict \<Rightarrow> nat \<Rightarrow> error + dict \<times> plain_key list \<times> nat" where
  "refine_plain G ns labels counter =
     (case get_new_ids_in_order_plain G ns labels of
        Inl e \<Rightarrow> Inl e
      | Inr sorted_ids \<Rightarrow>
     (case assign_new_labels_for_sorted_ids ne_plain sorted_ids of
        Inl e \<Rightarrow> Inl e
      | Inr (new_labels, defs) \<Rightarrow>
     (case are_new_labels_effectively_the_same ns labels new_labels of
        Inl e \<Rightarrow> Inl e
      | Inr same \<Rightarrow>
          if same then Inr (labels, defs, counter)
          else refine_plain G ns new_labels (counter + 1))))"
  by pat_completeness auto
termination
proof (relation "measure (\<lambda>(G, ns, labels, counter). length ns - label_count ns labels)")
  show "wf (measure (\<lambda>(G, ns, labels, counter). length ns - label_count ns labels))" by simp
next
  fix G ns labels and counter :: nat and sorted_ids x new_labels defs same
  assume a: "get_new_ids_in_order_plain G ns labels = Inr sorted_ids"
    "assign_new_labels_for_sorted_ids ne_plain sorted_ids = Inr x" "(new_labels, defs) = x"
    "are_new_labels_effectively_the_same ns labels new_labels = Inr same" "\<not> same"
  have "label_count ns labels < label_count ns new_labels"
    by (rule round_increases[OF get_new_ids_in_order_plain_props[OF a(1)] ne_plain_fst])
       (use a in auto)
  moreover have "label_count ns new_labels \<le> length ns" by (rule label_count_le)
  ultimately show "((G, ns, new_labels, counter + 1), (G, ns, labels, counter))
      \<in> measure (\<lambda>(G, ns, labels, counter). length ns - label_count ns labels)"
    by simp
qed

text \<open>
  \<^verbatim>\<open>{n: external_labels[n] for n in self.nodes}\<close> (KeyError when a node has no label) and
  the default \<^verbatim>\<open>{n: 0 for n in G.nodes()}\<close> of the constructor.
\<close>

definition labels_of_nodes :: "dict \<Rightarrow> int list \<Rightarrow> error + dict" where
  "labels_of_nodes external_labels ns =
     (case map_err (\<lambda>n. case dict_get external_labels n of
                           Inl e \<Rightarrow> Inl e | Inr l \<Rightarrow> Inr (n, l)) ns of
        Inl e \<Rightarrow> Inl e
      | Inr kvs \<Rightarrow> Inr (dict_of kvs))"

definition default_labels :: "graph \<Rightarrow> dict option \<Rightarrow> dict" where
  "default_labels G external_labels =
     (case external_labels of
        None \<Rightarrow> dict_of (map (\<lambda>n. (n, 0)) (nodes G))
      | Some d \<Rightarrow> d)"

text \<open>
  \<^verbatim>\<open>[(self.internal_labels[n], external_labels[n]) for n in self.nodes]\<close>, sorted.
\<close>

definition compute_label_pairings :: "dict \<Rightarrow> dict \<Rightarrow> int list \<Rightarrow> error + (int \<times> int) list" where
  "compute_label_pairings labels external_labels ns =
     (case map_err (\<lambda>n. case dict_get labels n of
                           Inl e \<Rightarrow> Inl e
                         | Inr i \<Rightarrow> (case dict_get external_labels n of
                                      Inl e \<Rightarrow> Inl e | Inr x \<Rightarrow> Inr (i, x))) ns of
        Inl e \<Rightarrow> Inl e
      | Inr ps \<Rightarrow> Inr (sort ps))"

text \<open>The constructor with \<^verbatim>\<open>nodewise=False\<close>.\<close>

definition init_plain :: "graph \<Rightarrow> dict option \<Rightarrow> error + plain" where
  "init_plain G external_labels_arg =
     (let external_labels = default_labels G external_labels_arg;
          ns = nodes G
      in case labels_of_nodes external_labels ns of
           Inl e \<Rightarrow> Inl e
         | Inr labels \<Rightarrow>
        (case compute_higher_than_any_internal_label ns labels of
           Inl e \<Rightarrow> Inl e
         | Inr H \<Rightarrow>
        (case refine_plain G ns labels 0 of
           Inl e \<Rightarrow> Inl e
         | Inr (final_labels, defs, counter) \<Rightarrow>
        (case compute_label_pairings final_labels external_labels ns of
           Inl e \<Rightarrow> Inl e
         | Inr pairings \<Rightarrow>
             Inr \<lparr>self_G = G, self_nodes = ns, self_internal_labels = final_labels,
                  self_external_labels = labels, self_higher_than_any_internal_label = H,
                  self_label_definitions = defs, self_label_pairings = Some pairings\<rparr>))))"

section \<open>CanonicalFormComparator on plain instances\<close>

text \<open>
  The loop of \<^verbatim>\<open>full_comparison\<close> over \<^verbatim>\<open>range(0, len(self.label_definitions))\<close>:
  \<^verbatim>\<open>other.label_definitions[i]\<close> raises IndexError when the other list is shorter.
\<close>

fun compare_label_definitions :: "plain_key list \<Rightarrow> plain_key list \<Rightarrow> error + int" where
  "compare_label_definitions [] other_defs = Inr 0"
| "compare_label_definitions (d # defs) [] = Inl IndexError"
| "compare_label_definitions (d # defs) (d' # other_defs) =
     (if fst d < fst d' then Inr (- 1)
      else if fst d > fst d' then Inr 1
      else if snd d < snd d' then Inr (- 1)
      else if snd d > snd d' then Inr 1
      else compare_label_definitions defs other_defs)"

text \<open>
  \<^verbatim>\<open>full_comparison\<close> when neither instance is nodewise: the label pairings, then the
  label definitions. A missing attribute is an AttributeError.
\<close>

definition full_comparison_plain :: "plain \<Rightarrow> plain \<Rightarrow> error + int" where
  "full_comparison_plain self other =
     (case self_label_pairings self of
        None \<Rightarrow> Inl AttributeError
      | Some ps \<Rightarrow>
     (case self_label_pairings other of
        None \<Rightarrow> Inl AttributeError
      | Some qs \<Rightarrow>
          if ps < qs then Inr (- 1)
          else if ps > qs then Inr 1
          else compare_label_definitions (self_label_definitions self)
                 (self_label_definitions other)))"

section \<open>PartitionRefiner, nodewise mode\<close>

type_synonym nodewise_key = "int \<times> plain"

text \<open>
  The comparison of two nodewise sort keys \<^verbatim>\<open>(label, instance)\<close>. Python compares
  tuples by the first position where the components are not \<^verbatim>\<open>==\<close>; on the instances
  \<^verbatim>\<open>==\<close> is \<^verbatim>\<open>__eq__\<close> and \<^verbatim>\<open><\<close> is \<^verbatim>\<open>__lt__\<close>, both through \<^verbatim>\<open>full_comparison\<close>.
\<close>

definition key_lt :: "nodewise_key \<Rightarrow> nodewise_key \<Rightarrow> error + bool" where
  "key_lt a b =
     (if fst a \<noteq> fst b then Inr (fst a < fst b)
      else case full_comparison_plain (snd a) (snd b) of
             Inl e \<Rightarrow> Inl e
           | Inr c \<Rightarrow> Inr (c \<noteq> 0 \<and> c = - 1))"

definition key_ne :: "nodewise_key \<Rightarrow> nodewise_key \<Rightarrow> error + bool" where
  "key_ne a b =
     (if fst a \<noteq> fst b then Inr True
      else case full_comparison_plain (snd a) (snd b) of
             Inl e \<Rightarrow> Inl e
           | Inr c \<Rightarrow> Inr (c \<noteq> 0))"

text \<open>
  \<^verbatim>\<open>ids.sort(key=(lambda x: x[1]))\<close> with a comparison that can raise. Python's sort is
  stable and uses \<^verbatim>\<open><\<close> only; it is modelled as the stable insertion sort, which
  returns the same list whenever the comparison is a total preorder.
\<close>

fun insert_sorted :: "('k \<Rightarrow> 'k \<Rightarrow> error + bool) \<Rightarrow> int \<times> 'k \<Rightarrow> (int \<times> 'k) list
    \<Rightarrow> error + (int \<times> 'k) list" where
  "insert_sorted lt x [] = Inr [x]"
| "insert_sorted lt x (y # ys) =
     (case lt (snd x) (snd y) of
        Inl e \<Rightarrow> Inl e
      | Inr is_less \<Rightarrow>
          if is_less then Inr (x # y # ys)
          else (case insert_sorted lt x ys of
                  Inl e \<Rightarrow> Inl e
                | Inr zs \<Rightarrow> Inr (y # zs)))"

fun sort_ids :: "('k \<Rightarrow> 'k \<Rightarrow> error + bool) \<Rightarrow> (int \<times> 'k) list \<Rightarrow> (int \<times> 'k) list
    \<Rightarrow> error + (int \<times> 'k) list" where
  "sort_ids lt [] sorted_part = Inr sorted_part"
| "sort_ids lt (x # xs) sorted_part =
     (case insert_sorted lt x sorted_part of
        Inl e \<Rightarrow> Inl e
      | Inr sorted_part \<Rightarrow> sort_ids lt xs sorted_part)"

text \<open>
  \<^verbatim>\<open>get_new_ids_in_order\<close>, the nodewise branch. For each node in turn a plain
  sub-instance is built on the labels \<^verbatim>\<open>overlay[node][n] * H + internal_labels[n]\<close>;
  its stabilised labels replace the overlay of the node.
\<close>

definition overlay_labels :: "dict \<Rightarrow> int \<Rightarrow> dict \<Rightarrow> int list \<Rightarrow> error + dict" where
  "overlay_labels overlay H labels ns =
     (case map_err (\<lambda>n. case dict_get overlay n of
                           Inl e \<Rightarrow> Inl e
                         | Inr v \<Rightarrow> (case dict_get labels n of
                                      Inl e \<Rightarrow> Inl e
                                    | Inr l \<Rightarrow> Inr (n, v * H + l))) ns of
        Inl e \<Rightarrow> Inl e
      | Inr kvs \<Rightarrow> Inr (dict_of kvs))"

fun nodewise_ids :: "graph \<Rightarrow> int list \<Rightarrow> int \<Rightarrow> dict \<Rightarrow> int list \<Rightarrow> (int \<times> dict) list
    \<Rightarrow> error + (int \<times> nodewise_key) list \<times> (int \<times> dict) list" where
  "nodewise_ids G ns H labels [] nodewise_overlays = Inr ([], nodewise_overlays)"
| "nodewise_ids G ns H labels (node # rest) nodewise_overlays =
     (case dict_get nodewise_overlays node of
        Inl e \<Rightarrow> Inl e
      | Inr overlay \<Rightarrow>
     (case overlay_labels overlay H labels ns of
        Inl e \<Rightarrow> Inl e
      | Inr new_labels \<Rightarrow>
     (case dict_get labels node of
        Inl e \<Rightarrow> Inl e
      | Inr l \<Rightarrow>
     (case init_plain G (Some new_labels) of
        Inl e \<Rightarrow> Inl e
      | Inr sub \<Rightarrow>
     (case nodewise_ids G ns H labels rest
             (dict_set nodewise_overlays node (self_internal_labels sub)) of
        Inl e \<Rightarrow> Inl e
      | Inr (ids, nodewise_overlays) \<Rightarrow> Inr ((node, (l, sub)) # ids, nodewise_overlays))))))"

definition get_new_ids_in_order_nodewise ::
  "graph \<Rightarrow> int list \<Rightarrow> int \<Rightarrow> dict \<Rightarrow> (int \<times> dict) list
    \<Rightarrow> error + (int \<times> nodewise_key) list \<times> (int \<times> dict) list" where
  "get_new_ids_in_order_nodewise G ns H labels nodewise_overlays =
     (case nodewise_ids G ns H labels ns nodewise_overlays of
        Inl e \<Rightarrow> Inl e
      | Inr (ids, nodewise_overlays) \<Rightarrow>
          (case sort_ids key_lt ids [] of
             Inl e \<Rightarrow> Inl e
           | Inr sorted_ids \<Rightarrow> Inr (sorted_ids, nodewise_overlays)))"

subsection \<open>Facts about the nodewise round\<close>

lemma insert_sorted_set:
  "insert_sorted lt x ys = Inr zs \<Longrightarrow> set zs = insert x (set ys)"
proof (induction ys arbitrary: zs)
  case Nil
  then show ?case by auto
next
  case (Cons y ys)
  obtain b where b: "lt (snd x) (snd y) = Inr b"
    using Cons.prems by (cases "lt (snd x) (snd y)") auto
  show ?case
  proof (cases b)
    case True
    then have "zs = x # y # ys" using Cons.prems b by simp
    then show ?thesis by auto
  next
    case False
    then obtain zs' where z: "insert_sorted lt x ys = Inr zs'" "zs = y # zs'"
      using Cons.prems b by (cases "insert_sorted lt x ys") auto
    from Cons.IH[OF z(1)] z(2) show ?thesis by auto
  qed
qed

lemma sort_ids_set:
  "sort_ids lt xs acc = Inr zs \<Longrightarrow> set zs = set xs \<union> set acc"
proof (induction xs arbitrary: acc zs)
  case Nil
  then show ?case by auto
next
  case (Cons x xs)
  obtain acc' where a: "insert_sorted lt x acc = Inr acc'" "sort_ids lt xs acc' = Inr zs"
    using Cons.prems by (cases "insert_sorted lt x acc") auto
  from Cons.IH[OF a(2)] insert_sorted_set[OF a(1)] show ?case by auto
qed

lemma nodewise_ids_props:
  "nodewise_ids G ns H labels rest ov = Inr (ids, ov') \<Longrightarrow>
   map fst ids = rest \<and> (\<forall>(n, k) \<in> set ids. map_of labels n = Some (fst k))"
proof (induction rest arbitrary: ov ids ov')
  case Nil
  then show ?case by auto
next
  case (Cons node rest)
  obtain overlay where o: "dict_get ov node = Inr overlay"
    using Cons.prems by (cases "dict_get ov node") auto
  obtain new_labels where n: "overlay_labels overlay H labels ns = Inr new_labels"
    using Cons.prems o by (cases "overlay_labels overlay H labels ns") auto
  obtain l where l: "dict_get labels node = Inr l"
    using Cons.prems o n by (cases "dict_get labels node") auto
  obtain sub where s: "init_plain G (Some new_labels) = Inr sub"
    using Cons.prems o n l by (cases "init_plain G (Some new_labels)") auto
  obtain r where r: "nodewise_ids G ns H labels rest (dict_set ov node (self_internal_labels sub)) = Inr r"
    using Cons.prems o n l s
    by (cases "nodewise_ids G ns H labels rest (dict_set ov node (self_internal_labels sub))") auto
  obtain ids0 ov0 where r0: "r = (ids0, ov0)" by (cases r)
  have ids: "ids = (node, (l, sub)) # ids0" and ov0: "ov' = ov0"
    using Cons.prems o n l s r r0 by auto
  have rec: "nodewise_ids G ns H labels rest (dict_set ov node (self_internal_labels sub)) = Inr (ids0, ov')"
    using r r0 ov0 by simp
  from Cons.IH[OF rec] l ids show ?case by (auto simp: dict_get_Inr)
qed

lemma get_new_ids_in_order_nodewise_props:
  assumes "get_new_ids_in_order_nodewise G ns H labels ov = Inr (ids, ov')"
  shows "fst ` set ids = set ns" "\<forall>(n, k) \<in> set ids. map_of labels n = Some (fst k)"
proof -
  obtain raw where raw: "nodewise_ids G ns H labels ns ov = Inr (raw, ov')"
    and s: "sort_ids key_lt raw [] = Inr ids"
    using assms by (auto simp: get_new_ids_in_order_nodewise_def split: sum.splits prod.splits)
  have set: "set ids = set raw" using sort_ids_set[OF s] by simp
  show "fst ` set ids = set ns" using nodewise_ids_props[OF raw] set by (metis set_map)
  show "\<forall>(n, k) \<in> set ids. map_of labels n = Some (fst k)"
    using nodewise_ids_props[OF raw] set by simp
qed

lemma key_ne_fst: "\<forall>a b c. key_ne a b = Inr c \<longrightarrow> fst a \<noteq> fst b \<longrightarrow> c"
  by (auto simp: key_ne_def)

text \<open>
  The \<^verbatim>\<open>while True\<close> loop of the constructor, nodewise mode: the overlays are threaded
  through the rounds. It ends for the same reason as the plain loop.
\<close>

function refine_nodewise ::
  "graph \<Rightarrow> int list \<Rightarrow> int \<Rightarrow> dict \<Rightarrow> (int \<times> dict) list \<Rightarrow> nat
    \<Rightarrow> error + dict \<times> (int \<times> dict) list \<times> nodewise_key list \<times> nat" where
  "refine_nodewise G ns H labels nodewise_overlays counter =
     (case get_new_ids_in_order_nodewise G ns H labels nodewise_overlays of
        Inl e \<Rightarrow> Inl e
      | Inr (sorted_ids, nodewise_overlays) \<Rightarrow>
     (case assign_new_labels_for_sorted_ids key_ne sorted_ids of
        Inl e \<Rightarrow> Inl e
      | Inr (new_labels, defs) \<Rightarrow>
     (case are_new_labels_effectively_the_same ns labels new_labels of
        Inl e \<Rightarrow> Inl e
      | Inr same \<Rightarrow>
          if same then Inr (labels, nodewise_overlays, defs, counter)
          else refine_nodewise G ns H new_labels nodewise_overlays (counter + 1))))"
  by pat_completeness auto
termination
proof (relation "measure (\<lambda>(G, ns, H, labels, ov, counter). length ns - label_count ns labels)")
  show "wf (measure (\<lambda>(G, ns, H, labels, ov, counter). length ns - label_count ns labels))"
    by simp
next
  fix G ns H labels ov and counter :: nat and x sorted_ids ov' y new_labels defs same
  assume a: "get_new_ids_in_order_nodewise G ns H labels ov = Inr x" "(sorted_ids, ov') = x"
    "assign_new_labels_for_sorted_ids key_ne sorted_ids = Inr y" "(new_labels, defs) = y"
    "are_new_labels_effectively_the_same ns labels new_labels = Inr same" "\<not> same"
  have g: "get_new_ids_in_order_nodewise G ns H labels ov = Inr (sorted_ids, ov')"
    using a by simp
  have "label_count ns labels < label_count ns new_labels"
    by (rule round_increases[OF get_new_ids_in_order_nodewise_props[OF g] key_ne_fst])
       (use a in auto)
  moreover have "label_count ns new_labels \<le> length ns" by (rule label_count_le)
  ultimately show "((G, ns, H, new_labels, ov', counter + 1), (G, ns, H, labels, ov, counter))
      \<in> measure (\<lambda>(G, ns, H, labels, ov, counter). length ns - label_count ns labels)"
    by simp
qed

section \<open>PartitionRefiner, the nodewise constructor\<close>

subsection \<open>Initial overlays\<close>

text \<open>
  \<^verbatim>\<open>nx.single_source_shortest_path_length(G, source)\<close> is the library's breadth-first
  search: the dictionary of the nodes reachable from \<open>source\<close> with their distances, in
  the order they are reached. A graph with \<open>k\<close> nodes has at most \<open>k\<close> levels.
\<close>

fun bfs_levels :: "graph \<Rightarrow> nat \<Rightarrow> int list \<Rightarrow> int list \<Rightarrow> int \<Rightarrow> dict \<Rightarrow> dict" where
  "bfs_levels G 0 this_level seen level path_labels = path_labels"
| "bfs_levels G (Suc k) this_level seen level path_labels =
     (if this_level = [] then path_labels
      else (let seen = seen @ this_level;
                path_labels = path_labels @ map (\<lambda>n. (n, level)) this_level;
                next_level = filter (\<lambda>n. n \<notin> set seen)
                               (remdups (concat (map (neighbors G) this_level)))
            in bfs_levels G k next_level seen (level + 1) path_labels))"

definition single_source_shortest_path_length :: "graph \<Rightarrow> int \<Rightarrow> dict" where
  "single_source_shortest_path_length G source =
     bfs_levels G (length (nodes G)) [source] [] 0 []"

text \<open>
  Lines 33 to 38 of the constructor, for one \<open>node\<close>: the distances from \<open>node\<close>, with
  \<^verbatim>\<open>max_dist\<close> for the nodes that are not reached, combined with the labels of the basic
  overlay into the head-start map
  \<^verbatim>\<open>{n: path_labels[n] + basic_overlay[n] * len(self.nodes) for n in self.nodes}\<close>.
\<close>

definition head_start :: "graph \<Rightarrow> int list \<Rightarrow> dict \<Rightarrow> int \<Rightarrow> error + dict" where
  "head_start G ns basic_overlay node =
     (let path_labels = single_source_shortest_path_length G node
      in case py_max (map snd path_labels) of
           Inl e \<Rightarrow> Inl e
         | Inr m \<Rightarrow>
             (let max_dist = m + 1;
                  path_labels = foldl (\<lambda>pl n. if map_of pl n = None then dict_set pl n max_dist
                                               else pl) path_labels ns
              in case map_err (\<lambda>n. case dict_get path_labels n of
                                      Inl e \<Rightarrow> Inl e
                                    | Inr d \<Rightarrow> (case dict_get basic_overlay n of
                                                 Inl e \<Rightarrow> Inl e
                                               | Inr b \<Rightarrow> Inr (n, d + b * int (length ns)))) ns of
                   Inl e \<Rightarrow> Inl e
                 | Inr kvs \<Rightarrow> Inr (dict_of kvs)))"

text \<open>
  Lines 41 to 44: \<^verbatim>\<open>max_value\<close> is the maximum of the head-start map; the assignment of
  line 42 is lost when line 43 replaces the map by the external labels, and line 44
  sets the entry of \<open>node\<close> to \<^verbatim>\<open>max_value + 1\<close> in the new map.
\<close>

definition initial_overlay :: "graph \<Rightarrow> int list \<Rightarrow> dict \<Rightarrow> dict \<Rightarrow> int \<Rightarrow> error + dict" where
  "initial_overlay G ns external_labels basic_overlay node =
     (case head_start G ns basic_overlay node of
        Inl e \<Rightarrow> Inl e
      | Inr overlay \<Rightarrow>
     (case py_max (map snd overlay) of
        Inl e \<Rightarrow> Inl e
      | Inr max_value \<Rightarrow>
     (case labels_of_nodes external_labels ns of
        Inl e \<Rightarrow> Inl e
      | Inr overlay \<Rightarrow> Inr (dict_set overlay node (max_value + 1)))))"

text \<open>The loop of line 32 over \<^verbatim>\<open>self.nodes\<close>.\<close>

definition initial_overlays :: "graph \<Rightarrow> int list \<Rightarrow> dict \<Rightarrow> dict \<Rightarrow> error + (int \<times> dict) list" where
  "initial_overlays G ns external_labels basic_overlay =
     (case map_err (\<lambda>node. case initial_overlay G ns external_labels basic_overlay node of
                              Inl e \<Rightarrow> Inl e
                            | Inr overlay \<Rightarrow> Inr (node, overlay)) ns of
        Inl e \<Rightarrow> Inl e
      | Inr kvs \<Rightarrow> Inr (dict_of kvs))"

subsection \<open>Nodewise instances\<close>

text \<open>
  The truthy values of the flag \<^verbatim>\<open>nodewise\<close>, and an instance built with one of them:
  the attributes of a plain instance, with sort keys \<^verbatim>\<open>(label, sub-instance)\<close>, and the
  attributes only a nodewise instance has. An attribute that has not been set is
  \<open>None\<close>.
\<close>

datatype nodewise = Master | Servant

record nodewise_fnr = "nodewise_key fnr" +
  self_nodewise :: nodewise
  self_initial_nodes :: "int list"
  self_initial_G :: graph
  self_nodewise_overlays :: "(int \<times> dict) list"
  self_final_node_order :: "int list option"
  self_ordered_labels :: "int list option"
  self_matrix :: "int list list option"

text \<open>
  The constructor with \<^verbatim>\<open>nodewise\<close> set, up to the end of the refinement loop (lines 6
  to 56). The graph is expanded, the basic overlay is the labelling of a plain
  instance on the expanded graph, and the loop starts from the external labels of the
  expanded graph. The line the Master instance prints at the end of the loop (the
  number of rounds) does not enter the result and is left out.
\<close>

definition init_refine :: "nodewise \<Rightarrow> graph \<Rightarrow> dict option \<Rightarrow> error + nodewise_fnr" where
  "init_refine flag G external_labels_arg =
     (let external_labels = default_labels G external_labels_arg
      in case expand_graph G external_labels of
           Inl e \<Rightarrow> Inl e
         | Inr (expanded_G, external_labels) \<Rightarrow>
        (let ns = nodes expanded_G
         in case labels_of_nodes external_labels ns of
              Inl e \<Rightarrow> Inl e
            | Inr labels \<Rightarrow>
           (case compute_higher_than_any_internal_label ns labels of
              Inl e \<Rightarrow> Inl e
            | Inr H \<Rightarrow>
           (case init_plain expanded_G (Some external_labels) of
              Inl e \<Rightarrow> Inl e
            | Inr basic_overlay \<Rightarrow>
           (case initial_overlays expanded_G ns labels (self_internal_labels basic_overlay) of
              Inl e \<Rightarrow> Inl e
            | Inr nodewise_overlays \<Rightarrow>
           (case refine_nodewise expanded_G ns H labels nodewise_overlays 0 of
              Inl e \<Rightarrow> Inl e
            | Inr (final_labels, nodewise_overlays, defs, counter) \<Rightarrow>
                Inr \<lparr>self_G = expanded_G, self_nodes = ns, self_internal_labels = final_labels,
                     self_external_labels = labels, self_higher_than_any_internal_label = H,
                     self_label_definitions = defs, self_label_pairings = None,
                     self_nodewise = flag, self_initial_nodes = nodes G, self_initial_G = G,
                     self_nodewise_overlays = nodewise_overlays,
                     self_final_node_order = None, self_ordered_labels = None,
                     self_matrix = None\<rparr>))))))"

text \<open>The constructor with \<^verbatim>\<open>nodewise="Servant"\<close>: lines 61 and 62 follow the loop.\<close>

definition init_servant :: "graph \<Rightarrow> dict option \<Rightarrow> error + nodewise_fnr" where
  "init_servant G external_labels_arg =
     (case init_refine Servant G external_labels_arg of
        Inl e \<Rightarrow> Inl e
      | Inr self \<Rightarrow>
          (case compute_label_pairings (self_internal_labels self) (self_external_labels self)
                  (self_nodes self) of
             Inl e \<Rightarrow> Inl e
           | Inr pairings \<Rightarrow> Inr (self\<lparr>self_label_pairings := Some pairings\<rparr>)))"

section \<open>CanonicalOrderBuilder: \<^verbatim>\<open>set_canonical_form\<close>\<close>

text \<open>
  \<^verbatim>\<open>further_sort\<close>: every entry \<^verbatim>\<open>[n, v]\<close> becomes \<^verbatim>\<open>[n, (v, new_labels[n])]\<close>, the list is
  sorted by the second component (stable), and the second components are replaced by
  their ranks, starting at 0. Reading \<^verbatim>\<open>initial_list[0]\<close> of an empty list is an
  IndexError. The list is returned instead of updated in place.
\<close>

fun relabel :: "(int \<times> int \<times> int) list \<Rightarrow> int \<times> int \<Rightarrow> int \<Rightarrow> (int \<times> int) list" where
  "relabel [] prev_value next_label = []"
| "relabel ((n, current_value) # rest) prev_value next_label =
     (if current_value \<noteq> prev_value
      then (n, next_label + 1) # relabel rest current_value (next_label + 1)
      else (n, next_label) # relabel rest prev_value next_label)"

definition further_sort :: "(int \<times> int) list \<Rightarrow> dict \<Rightarrow> error + (int \<times> int) list" where
  "further_sort initial_list new_labels =
     (case map_err (\<lambda>(n, v). case dict_get new_labels n of
                               Inl e \<Rightarrow> Inl e
                             | Inr l \<Rightarrow> Inr (n, (v, l))) initial_list of
        Inl e \<Rightarrow> Inl e
      | Inr paired \<Rightarrow>
          (case sort_key snd paired of
             [] \<Rightarrow> Inl IndexError
           | (n, prev_value) # rest \<Rightarrow> Inr ((n, 0) # relabel rest prev_value 0)))"

text \<open>
  The search of lines 246 to 256 for the first entry whose rank no neighbour in the
  list shares: \<open>skip_run\<close> is the inner loop over \<^verbatim>\<open>next_idx\<close>, \<open>find_selected\<close> the outer
  one. The result is the length of the list when every rank is shared.
\<close>

fun skip_run :: "int \<Rightarrow> (int \<times> int) list \<Rightarrow> nat \<Rightarrow> nat" where
  "skip_run v [] next_idx = next_idx"
| "skip_run v ((n, w) # rest) next_idx =
     (if v = w then skip_run v rest (next_idx + 1) else next_idx)"

lemma skip_run_ge: "next_idx \<le> skip_run v xs next_idx"
proof (induction xs arbitrary: next_idx)
  case Nil
  then show ?case by simp
next
  case (Cons x xs)
  obtain n w where x: "x = (n, w)" by (cases x)
  show ?case using Cons.IH[of "next_idx + 1"] by (auto simp: x dest: Suc_leD)
qed

function find_selected :: "(int \<times> int) list \<Rightarrow> nat \<Rightarrow> nat" where
  "find_selected node_ordering selected_index =
     (if selected_index < length node_ordering
      then (if selected_index + 1 < length node_ordering
            then (if snd (node_ordering ! selected_index)
                       = snd (node_ordering ! (selected_index + 1))
                  then find_selected node_ordering
                         (skip_run (snd (node_ordering ! selected_index))
                            (drop (selected_index + 1) node_ordering) (selected_index + 1))
                  else selected_index)
            else selected_index)
      else selected_index)"
  by pat_completeness auto
termination
proof (relation "measure (\<lambda>(node_ordering, selected_index).
                    length node_ordering - selected_index)")
  show "wf (measure (\<lambda>(node_ordering, selected_index).
               length node_ordering - selected_index))"
    by simp
next
  fix node_ordering :: "(int \<times> int) list" and selected_index :: nat
  assume a: "selected_index < length node_ordering"
  have "selected_index + 1 \<le> skip_run (snd (node_ordering ! selected_index))
          (drop (selected_index + 1) node_ordering) (selected_index + 1)"
    by (rule skip_run_ge)
  then show "((node_ordering, skip_run (snd (node_ordering ! selected_index))
                 (drop (selected_index + 1) node_ordering) (selected_index + 1)),
              (node_ordering, selected_index))
      \<in> measure (\<lambda>(node_ordering, selected_index). length node_ordering - selected_index)"
    using a by simp
qed

declare find_selected.simps [simp del]

text \<open>
  Lines 262 to 264: the labels given to the Servant instance, the ranks of the nodes
  still to place shifted by the number of placed nodes, and the position of each placed
  node.
\<close>

definition tie_break_labels :: "(int \<times> int) list \<Rightarrow> int list \<Rightarrow> dict" where
  "tie_break_labels node_ordering final_node_order =
     foldl (\<lambda>d j. dict_set d (final_node_order ! j) (int j))
       (dict_of (map (\<lambda>(n, v). (n, v + int (length final_node_order))) node_ordering))
       [0..<length final_node_order]"

definition py_nth :: "'a list \<Rightarrow> nat \<Rightarrow> error + 'a" where
  "py_nth xs i = (if i < length xs then Inr (xs ! i) else Inl IndexError)"

definition list_pop :: "'a list \<Rightarrow> nat \<Rightarrow> 'a list" where
  "list_pop xs i = take i xs @ drop (i + 1) xs"

text \<open>
  One pass of the loop of line 240, on the list \<^verbatim>\<open>ordering\<close> (here \<open>node_ordering\<close>) and
  \<^verbatim>\<open>final_node_order\<close>. The line printed when the chosen node is tied with its
  successor (line 273) does not enter the result and is left out.
\<close>

definition canonical_step ::
  "graph \<Rightarrow> (int \<times> dict) list \<Rightarrow> (int \<times> int) list \<times> int list
    \<Rightarrow> error + (int \<times> int) list \<times> int list" where
  "canonical_step initial_G nodewise_overlays state =
     (case state of (node_ordering, final_node_order) \<Rightarrow>
     (case py_last final_node_order of
        Inl e \<Rightarrow> Inl e
      | Inr last_node \<Rightarrow>
     (case dict_get nodewise_overlays last_node of
        Inl e \<Rightarrow> Inl e
      | Inr overlay \<Rightarrow>
     (case further_sort node_ordering overlay of
        Inl e \<Rightarrow> Inl e
      | Inr node_ordering \<Rightarrow>
     (let selected_index = find_selected node_ordering 0
      in case (if selected_index \<ge> length node_ordering
                  \<or> (selected_index + 1 < length node_ordering
                     \<and> snd (node_ordering ! selected_index)
                         = snd (node_ordering ! (selected_index + 1)))
               then (case init_servant initial_G
                            (Some (tie_break_labels node_ordering final_node_order)) of
                       Inl e \<Rightarrow> Inl e
                     | Inr more_refined \<Rightarrow>
                         (case further_sort node_ordering (self_internal_labels more_refined) of
                            Inl e \<Rightarrow> Inl e
                          | Inr node_ordering \<Rightarrow> Inr (node_ordering, 0)))
               else Inr (node_ordering, selected_index)) of
           Inl e \<Rightarrow> Inl e
         | Inr (node_ordering, selected_index) \<Rightarrow>
             (case py_nth node_ordering selected_index of
                Inl e \<Rightarrow> Inl e
              | Inr chosen \<Rightarrow>
                  Inr (if length node_ordering > 1 then list_pop node_ordering selected_index
                       else node_ordering,
                       final_node_order @ [fst chosen])))))))"

fun canonical_loop ::
  "graph \<Rightarrow> (int \<times> dict) list \<Rightarrow> nat \<Rightarrow> (int \<times> int) list \<times> int list
    \<Rightarrow> error + (int \<times> int) list \<times> int list" where
  "canonical_loop initial_G nodewise_overlays 0 state = Inr state"
| "canonical_loop initial_G nodewise_overlays (Suc k) state =
     (case canonical_step initial_G nodewise_overlays state of
        Inl e \<Rightarrow> Inl e
      | Inr state \<Rightarrow> canonical_loop initial_G nodewise_overlays k state)"

text \<open>The rows of the upper triangle of the adjacency matrix, lines 278 to 286.\<close>

fun matrix_rows :: "graph \<Rightarrow> int list \<Rightarrow> int list list" where
  "matrix_rows G [] = []"
| "matrix_rows G (u # rest) =
     map (\<lambda>v. if has_edge G u v then 1 else 0) rest # matrix_rows G rest"

definition set_canonical_form :: "nodewise_fnr \<Rightarrow> error + nodewise_fnr" where
  "set_canonical_form self =
     (case further_sort (map (\<lambda>n. (n, 0)) (self_initial_nodes self))
             (self_internal_labels self) of
        Inl e \<Rightarrow> Inl e
      | Inr node_ordering \<Rightarrow>
     (case py_nth node_ordering 0 of
        Inl e \<Rightarrow> Inl e
      | Inr first \<Rightarrow>
     (case canonical_loop (self_initial_G self) (self_nodewise_overlays self)
             (length (self_initial_nodes self) - 1) (drop 1 node_ordering, [fst first]) of
        Inl e \<Rightarrow> Inl e
      | Inr (node_ordering, final_node_order) \<Rightarrow>
     (case map_err (dict_get (self_external_labels self)) final_node_order of
        Inl e \<Rightarrow> Inl e
      | Inr ordered_labels \<Rightarrow>
          Inr (self\<lparr>self_final_node_order := Some final_node_order,
                    self_ordered_labels := Some ordered_labels,
                    self_matrix := Some (matrix_rows (self_initial_G self) final_node_order)\<rparr>)))))"

text \<open>The constructor with \<^verbatim>\<open>nodewise="Master"\<close>, the default: \<^verbatim>\<open>canonicalize\<close>.\<close>

definition init_master :: "graph \<Rightarrow> dict option \<Rightarrow> error + nodewise_fnr" where
  "init_master G external_labels_arg =
     (case init_refine Master G external_labels_arg of
        Inl e \<Rightarrow> Inl e
      | Inr self \<Rightarrow> set_canonical_form self)"

text \<open>The canonical form of an instance: the two attributes that are compared.\<close>

definition canonical_form :: "nodewise_fnr \<Rightarrow> int list option \<times> int list list option" where
  "canonical_form self = (self_ordered_labels self, self_matrix self)"

section \<open>CanonicalFormComparator on instances of both kinds\<close>

text \<open>
  An instance of the class is plain (\<^verbatim>\<open>nodewise\<close> is \<^verbatim>\<open>False\<close>) or nodewise. What
  \<^verbatim>\<open>full_comparison\<close> prints is part of its result: a line of text, the line
  \<^verbatim>\<open>"%d:" % (i+1)\<close>, or a row of a matrix.
\<close>

datatype any_instance = Plain_instance plain | Nodewise_instance nodewise_fnr

datatype printed = Text string | Row_number int | Row "int list"

text \<open>
  The loop of lines 123 to 128 (and 131 to 136) over the rows of \<^verbatim>\<open>self.matrix\<close>;
  \<^verbatim>\<open>other.matrix[i]\<close> raises IndexError when the other matrix is shorter.
\<close>

fun print_rows :: "int list list \<Rightarrow> int list list \<Rightarrow> int \<Rightarrow> printed list \<times> error option" where
  "print_rows [] other_matrix i = ([], None)"
| "print_rows (row # rows) [] i = ([], Some IndexError)"
| "print_rows (row # rows) (other_row # other_rows) i =
     (case print_rows rows other_rows (i + 1) of
        (out, err) \<Rightarrow>
          ((if row \<noteq> other_row
            then [Row_number (i + 1), Row row, Row other_row, Text ''---'']
            else []) @ out, err))"

text \<open>Lines 117 to 138: both instances are nodewise.\<close>

definition full_comparison_nodewise :: "nodewise_fnr \<Rightarrow> nodewise_fnr \<Rightarrow> printed list \<times> (error + int)" where
  "full_comparison_nodewise self other =
     (case self_ordered_labels self of
        None \<Rightarrow> ([], Inl AttributeError)
      | Some ls \<Rightarrow>
     (case self_ordered_labels other of
        None \<Rightarrow> ([], Inl AttributeError)
      | Some ms \<Rightarrow>
          if ls < ms then ([], Inr (- 1))
          else if ls > ms then ([], Inr 1)
          else (case self_matrix self of
                  None \<Rightarrow> ([], Inl AttributeError)
                | Some a \<Rightarrow>
               (case self_matrix other of
                  None \<Rightarrow> ([], Inl AttributeError)
                | Some b \<Rightarrow>
                    if a < b
                    then (case print_rows a b 0 of
                            (out, None) \<Rightarrow> (out, Inr (- 1))
                          | (out, Some e) \<Rightarrow> (out, Inl e))
                    else if a > b
                    then (case print_rows a b 0 of
                            (out, None) \<Rightarrow> (out, Inr 1)
                          | (out, Some e) \<Rightarrow> (out, Inl e))
                    else ([], Inr 0)))))"

text \<open>
  \<^verbatim>\<open>full_comparison\<close>: lines 110 to 115 answer a mixed pair after printing a line; the
  other cases are the two comparisons above. \<^verbatim>\<open>__eq__\<close> and \<^verbatim>\<open>__lt__\<close> test the result.
\<close>

fun full_comparison :: "any_instance \<Rightarrow> any_instance \<Rightarrow> printed list \<times> (error + int)" where
  "full_comparison (Plain_instance self) (Nodewise_instance other) =
     ([Text ''This comparison should never occur!''], Inr (- 1))"
| "full_comparison (Nodewise_instance self) (Plain_instance other) =
     ([Text ''This comparison should never occur!''], Inr 1)"
| "full_comparison (Nodewise_instance self) (Nodewise_instance other) =
     full_comparison_nodewise self other"
| "full_comparison (Plain_instance self) (Plain_instance other) =
     ([], full_comparison_plain self other)"

definition instance_eq :: "any_instance \<Rightarrow> any_instance \<Rightarrow> printed list \<times> (error + bool)" where
  "instance_eq self other =
     (case full_comparison self other of (out, r) \<Rightarrow> (out, map_sum id (\<lambda>c. c = 0) r))"

definition instance_lt :: "any_instance \<Rightarrow> any_instance \<Rightarrow> printed list \<times> (error + bool)" where
  "instance_lt self other =
     (case full_comparison self other of (out, r) \<Rightarrow> (out, map_sum id (\<lambda>c. c = - 1) r))"

section \<open>Properties of the refinement engine\<close>

text \<open>
  C5. The fixpoint test compares partitions, not label values: when every node has an old
  and a new label, \<^verbatim>\<open>are_new_labels_effectively_the_same\<close> returns true exactly when two
  nodes have equal old labels iff they have equal new labels.
\<close>

theorem effectively_the_same_iff_same_partition:
  assumes "\<forall>n \<in> set ns. map_of labels n \<noteq> None \<and> map_of new_labels n \<noteq> None"
  shows "are_new_labels_effectively_the_same ns labels new_labels =
           Inr (\<forall>a \<in> set ns. \<forall>b \<in> set ns.
                  map_of labels a = map_of labels b \<longleftrightarrow> map_of new_labels a = map_of new_labels b)"
proof -
  have "same_loop ns labels new_labels [] [] =
         Inr (\<forall>n \<in> set ns. find (\<lambda>m. map_of labels m = map_of labels n) ([] @ ns) =
                            find (\<lambda>m. map_of new_labels m = map_of new_labels n) ([] @ ns))"
    by (rule same_loop_char) (use assms in auto)
  then show ?thesis
    using find_partition_iff[of ns "map_of labels" "map_of new_labels"]
    by (simp add: are_new_labels_effectively_the_same_def)
qed

theorem effectively_the_same_iff_same_partition_witness:
  "are_new_labels_effectively_the_same [0, 1, 2] [(0, 5), (1, 5), (2, 7)] [(0, 1), (1, 1), (2, 0)]
     = Inr True
   \<and> are_new_labels_effectively_the_same [0, 1, 2] [(0, 5), (1, 5), (2, 7)] [(0, 0), (1, 1), (2, 1)]
     = Inr False"
  using effectively_the_same_iff_same_partition
          [of "[0, 1, 2]" "[(0, 5), (1, 5), (2, 7)]" "[(0, 1), (1, 1), (2, 0)]"]
        effectively_the_same_iff_same_partition
          [of "[0, 1, 2]" "[(0, 5), (1, 5), (2, 7)]" "[(0, 0), (1, 1), (2, 1)]"]
  by simp

subsection \<open>The refinement loop: rounds and results\<close>

lemma plain_round_increases:
  assumes "get_new_ids_in_order_plain G ns labels = Inr ids"
    and "assign_new_labels_for_sorted_ids ne_plain ids = Inr (new_labels, defs)"
    and "are_new_labels_effectively_the_same ns labels new_labels = Inr False"
  shows "label_count ns labels < label_count ns new_labels"
  by (rule round_increases[OF get_new_ids_in_order_plain_props[OF assms(1)] ne_plain_fst assms(2,3)])

lemma nodewise_round_increases:
  assumes "get_new_ids_in_order_nodewise G ns H labels ov = Inr (ids, ov')"
    and "assign_new_labels_for_sorted_ids key_ne ids = Inr (new_labels, defs)"
    and "are_new_labels_effectively_the_same ns labels new_labels = Inr False"
  shows "label_count ns labels < label_count ns new_labels"
  by (rule round_increases[OF get_new_ids_in_order_nodewise_props[OF assms(1)] key_ne_fst assms(2,3)])

lemma refine_plain_rounds:
  "refine_plain G ns labels c = Inr (final, defs, c') \<Longrightarrow>
   c' + label_count ns labels \<le> c + label_count ns final"
proof (induction G ns labels c rule: refine_plain.induct)
  case (1 G ns labels counter)
  obtain ids where ids: "get_new_ids_in_order_plain G ns labels = Inr ids"
    using "1.prems" by (subst (asm) refine_plain.simps) (auto split: sum.splits)
  obtain new_labels defs0 where asg:
    "assign_new_labels_for_sorted_ids ne_plain ids = Inr (new_labels, defs0)"
    using "1.prems" ids by (subst (asm) refine_plain.simps) (auto split: sum.splits)
  obtain same where same: "are_new_labels_effectively_the_same ns labels new_labels = Inr same"
    using "1.prems" ids asg by (subst (asm) refine_plain.simps) (auto split: sum.splits)
  show ?case
  proof (cases same)
    case True
    then have "final = labels" "c' = counter"
      using "1.prems" ids asg same by (subst (asm) refine_plain.simps, simp)+
    then show ?thesis by simp
  next
    case False
    then have rec: "refine_plain G ns new_labels (counter + 1) = Inr (final, defs, c')"
      using "1.prems" ids asg same by (subst (asm) refine_plain.simps) simp
    have "c' + label_count ns new_labels \<le> counter + 1 + label_count ns final"
      using "1.IH"[OF ids _ _ same _ rec] asg False by simp
    moreover have "label_count ns labels < label_count ns new_labels"
      using plain_round_increases[OF ids asg] same False by simp
    ultimately show ?thesis by simp
  qed
qed

lemma map_err_succeeds:
  "\<forall>x \<in> set xs. \<exists>y. f x = Inr y \<Longrightarrow> \<exists>ys. map_err f xs = Inr ys"
proof (induction xs)
  case Nil
  then show ?case by simp
next
  case (Cons x xs)
  then obtain y ys where "f x = Inr y" "map_err f xs = Inr ys" by auto
  then show ?case by simp
qed

lemma assign_loop_plain_succeeds:
  "\<exists>r. assign_loop ne_plain ids prev nxt nl defs = Inr r"
proof (induction ids arbitrary: prev nxt nl defs)
  case Nil
  then show ?case by simp
next
  case (Cons cur rest)
  obtain ch where ch: "(case prev of None \<Rightarrow> Inr True | Some p \<Rightarrow> ne_plain p (snd cur)) = Inr ch"
    by (cases prev) (auto simp: ne_plain_def)
  show ?case
    using Cons.IH by (simp add: ch Let_def)
qed

lemma get_new_ids_in_order_plain_succeeds:
  assumes "\<forall>n \<in> set ns. map_of labels n \<noteq> None"
    and "\<forall>n \<in> set ns. set (neighbors G n) \<subseteq> set ns"
  shows "\<exists>ids. get_new_ids_in_order_plain G ns labels = Inr ids"
proof -
  have "\<forall>n \<in> set ns. \<exists>y. plain_id G labels n = Inr y"
  proof
    fix n assume n: "n \<in> set ns"
    have "\<forall>m \<in> set (neighbors G n). \<exists>l. dict_get labels m = Inr l"
      using assms n by (auto simp: dict_get_def split: option.splits)
    then obtain nbs where "map_err (dict_get labels) (neighbors G n) = Inr nbs"
      using map_err_succeeds by blast
    moreover obtain l where "dict_get labels n = Inr l"
      using assms n by (auto simp: dict_get_def split: option.splits)
    ultimately show "\<exists>y. plain_id G labels n = Inr y" by (simp add: plain_id_def)
  qed
  then obtain raw where "map_err (plain_id G labels) ns = Inr raw"
    using map_err_succeeds by blast
  then show ?thesis by (simp add: get_new_ids_in_order_plain_def)
qed

lemma refine_plain_returns:
  assumes "\<forall>n \<in> set ns. map_of labels n \<noteq> None"
    and "\<forall>n \<in> set ns. set (neighbors G n) \<subseteq> set ns"
  shows "\<exists>final defs c'. refine_plain G ns labels c = Inr (final, defs, c')"
  using assms
proof (induction G ns labels c rule: refine_plain.induct)
  case (1 G ns labels counter)
  obtain ids where ids: "get_new_ids_in_order_plain G ns labels = Inr ids"
    using get_new_ids_in_order_plain_succeeds[OF "1.prems"] by blast
  obtain new_labels defs0 where asg:
    "assign_new_labels_for_sorted_ids ne_plain ids = Inr (new_labels, defs0)"
    using assign_loop_plain_succeeds[of ids None "- 1" "[]" "[]"]
    by (auto simp: assign_new_labels_for_sorted_ids_def)
  have run: "assign_loop ne_plain ids None (- 1) [] [] = Inr (new_labels, defs0)"
    using asg by (simp add: assign_new_labels_for_sorted_ids_def)
  have dom: "dom (map_of new_labels) = set ns"
    using assign_loop_dom[OF run] get_new_ids_in_order_plain_props(1)[OF ids] by simp
  have new_some: "\<forall>n \<in> set ns. map_of new_labels n \<noteq> None" using dom by auto
  obtain same where same: "are_new_labels_effectively_the_same ns labels new_labels = Inr same"
    using same_loop_char[of ns labels new_labels "[]" "[]"] "1.prems"(1) new_some
    by (auto simp: are_new_labels_effectively_the_same_def)
  show ?case
  proof (cases same)
    case True
    then show ?thesis using ids asg same by (subst refine_plain.simps) simp
  next
    case False
    have "\<exists>final defs c'. refine_plain G ns new_labels (counter + 1) = Inr (final, defs, c')"
      using "1.IH"[OF ids _ _ same _ new_some "1.prems"(2)] asg False by simp
    then show ?thesis using ids asg same False by (subst refine_plain.simps) simp
  qed
qed

lemma refine_nodewise_rounds:
  "refine_nodewise G ns H labels ov c = Inr (final, ov', defs, c') \<Longrightarrow>
   c' + label_count ns labels \<le> c + label_count ns final"
proof (induction G ns H labels ov c rule: refine_nodewise.induct)
  case (1 G ns H labels ov counter)
  obtain x where x: "get_new_ids_in_order_nodewise G ns H labels ov = Inr x"
    using "1.prems" by (subst (asm) refine_nodewise.simps) (auto split: sum.splits)
  obtain ids ov1 where x1: "x = (ids, ov1)" by (cases x)
  have ids: "get_new_ids_in_order_nodewise G ns H labels ov = Inr (ids, ov1)" using x x1 by simp
  obtain new_labels defs0 where asg:
    "assign_new_labels_for_sorted_ids key_ne ids = Inr (new_labels, defs0)"
    using "1.prems" ids by (subst (asm) refine_nodewise.simps) (auto split: sum.splits)
  obtain same where same: "are_new_labels_effectively_the_same ns labels new_labels = Inr same"
    using "1.prems" ids asg by (subst (asm) refine_nodewise.simps) (auto split: sum.splits)
  show ?case
  proof (cases same)
    case True
    then have "final = labels" "c' = counter"
      using "1.prems" ids asg same by (subst (asm) refine_nodewise.simps, simp)+
    then show ?thesis by simp
  next
    case False
    then have rec: "refine_nodewise G ns H new_labels ov1 (counter + 1) = Inr (final, ov', defs, c')"
      using "1.prems" ids asg same by (subst (asm) refine_nodewise.simps) simp
    have "c' + label_count ns new_labels \<le> counter + 1 + label_count ns final"
      using "1.IH"[OF ids _ _ _ same _ rec] asg False by simp
    moreover have "label_count ns labels < label_count ns new_labels"
      using nodewise_round_increases[OF ids asg] same False by simp
    ultimately show ?thesis by simp
  qed
qed

text \<open>The path on three nodes, \<^verbatim>\<open>0 - 1 - 2\<close> (scenario 1 of the specification).\<close>

definition path3 :: graph where
  "path3 = \<lparr>nodes = [0, 1, 2], edges = [(0, 1), (1, 2)]\<rparr>"

text \<open>
  C6. The refinement loop ends within as many rounds as there are nodes. In both modes a
  round that fails the fixpoint test has strictly more distinct labels than the round
  before, and never more than there are nodes; hence the round counter of a finished
  loop is at most the node count; and on a graph whose nodes are all labelled and whose
  neighbours are nodes, the plain loop returns a result.
\<close>

theorem refinement_loop_terminates:
  "(\<forall>ids new_labels defs.
      get_new_ids_in_order_plain G ns labels = Inr ids \<longrightarrow>
      assign_new_labels_for_sorted_ids ne_plain ids = Inr (new_labels, defs) \<longrightarrow>
      are_new_labels_effectively_the_same ns labels new_labels = Inr False \<longrightarrow>
      label_count ns labels < label_count ns new_labels \<and> label_count ns new_labels \<le> length ns)
   \<and> (\<forall>ids ov' new_labels defs.
      get_new_ids_in_order_nodewise G ns H labels ov = Inr (ids, ov') \<longrightarrow>
      assign_new_labels_for_sorted_ids key_ne ids = Inr (new_labels, defs) \<longrightarrow>
      are_new_labels_effectively_the_same ns labels new_labels = Inr False \<longrightarrow>
      label_count ns labels < label_count ns new_labels \<and> label_count ns new_labels \<le> length ns)
   \<and> (\<forall>final defs rounds.
      refine_plain G ns labels 0 = Inr (final, defs, rounds) \<longrightarrow> rounds \<le> length ns)
   \<and> (\<forall>final ov' defs rounds.
      refine_nodewise G ns H labels ov 0 = Inr (final, ov', defs, rounds) \<longrightarrow> rounds \<le> length ns)
   \<and> ((\<forall>n \<in> set ns. map_of labels n \<noteq> None \<and> set (neighbors G n) \<subseteq> set ns) \<longrightarrow>
      (\<exists>final defs rounds. refine_plain G ns labels 0 = Inr (final, defs, rounds)))"
proof (intro conjI allI impI)
  fix ids new_labels defs
  assume "get_new_ids_in_order_plain G ns labels = Inr ids"
    "assign_new_labels_for_sorted_ids ne_plain ids = Inr (new_labels, defs)"
    "are_new_labels_effectively_the_same ns labels new_labels = Inr False"
  then show "label_count ns labels < label_count ns new_labels"
    by (rule plain_round_increases)
  show "label_count ns new_labels \<le> length ns" by (rule label_count_le)
next
  fix ids ov' new_labels defs
  assume "get_new_ids_in_order_nodewise G ns H labels ov = Inr (ids, ov')"
    "assign_new_labels_for_sorted_ids key_ne ids = Inr (new_labels, defs)"
    "are_new_labels_effectively_the_same ns labels new_labels = Inr False"
  then show "label_count ns labels < label_count ns new_labels"
    by (rule nodewise_round_increases)
  show "label_count ns new_labels \<le> length ns" by (rule label_count_le)
next
  fix final defs rounds
  assume "refine_plain G ns labels 0 = Inr (final, defs, rounds)"
  from refine_plain_rounds[OF this] label_count_le[of ns final]
  show "rounds \<le> length ns" by simp
next
  fix final ov' defs rounds
  assume "refine_nodewise G ns H labels ov 0 = Inr (final, ov', defs, rounds)"
  from refine_nodewise_rounds[OF this] label_count_le[of ns final]
  show "rounds \<le> length ns" by simp
next
  assume "\<forall>n \<in> set ns. map_of labels n \<noteq> None \<and> set (neighbors G n) \<subseteq> set ns"
  then show "\<exists>final defs rounds. refine_plain G ns labels 0 = Inr (final, defs, rounds)"
    using refine_plain_returns[of ns labels G 0] by blast
qed

theorem refinement_loop_terminates_witness:
  "map (\<lambda>n. map_of [(0, 0), (1, 0), (2, 0)] n \<noteq> None
              \<and> set (neighbors path3 n) \<subseteq> set [0, 1, 2]) [0, 1, 2] = [True, True, True]
   \<and> (\<exists>final defs rounds.
        refine_plain path3 [0, 1, 2] [(0, 0), (1, 0), (2, 0)] 0 = Inr (final, defs, rounds)
        \<and> rounds \<le> length [0, 1, 2 :: int])
   \<and> get_new_ids_in_order_plain path3 [0, 1, 2] [(0, 0), (1, 0), (2, 0)]
        = Inr [(0, (0, [0])), (2, (0, [0])), (1, (0, [0, 0]))]
   \<and> assign_new_labels_for_sorted_ids ne_plain [(0, (0, [0])), (2, (0, [0])), (1, (0, [0, 0]))]
        = Inr ([(0, 0), (2, 0), (1, 1)], [(0, [0]), (0, [0, 0])])
   \<and> are_new_labels_effectively_the_same [0, 1, 2] [(0, 0), (1, 0), (2, 0)]
        [(0, 0), (2, 0), (1, 1)] = Inr False
   \<and> label_count [0, 1, 2] [(0, 0), (1, 0), (2, 0)] < label_count [0, 1, 2] [(0, 0), (2, 0), (1, 1)]"
proof -
  have h: "\<forall>n \<in> set [0, 1, 2]. map_of [(0, 0), (1, 0), (2, 0)] n \<noteq> None
        \<and> set (neighbors path3 n) \<subseteq> set [0, 1, 2]"
    by (simp add: path3_def neighbors_def)
  have ids: "get_new_ids_in_order_plain path3 [0, 1, 2] [(0, 0), (1, 0), (2, 0)]
        = Inr [(0, (0, [0])), (2, (0, [0])), (1, (0, [0, 0]))]"
    by code_simp
  have asg: "assign_new_labels_for_sorted_ids ne_plain
        [(0, (0, [0])), (2, (0, [0])), (1, (0, [0, 0]))]
        = Inr ([(0, 0), (2, 0), (1, 1)], [(0, [0]), (0, [0, 0])])"
    by code_simp
  have same: "are_new_labels_effectively_the_same [0, 1, 2] [(0, 0), (1, 0), (2, 0)]
        [(0, 0), (2, 0), (1, 1)] = Inr False"
    by code_simp
  note t = refinement_loop_terminates[of path3 "[0, 1, 2]" "[(0, 0), (1, 0), (2, 0)]" 0 "[]"]
  from t h obtain final defs rounds where
    r: "refine_plain path3 [0, 1, 2] [(0, 0), (1, 0), (2, 0)] 0 = Inr (final, defs, rounds)"
    by blast
  from t r have b: "rounds \<le> length [0, 1, 2 :: int]" by blast
  from t ids asg same have
    "label_count [0, 1, 2] [(0, 0), (1, 0), (2, 0)] < label_count [0, 1, 2] [(0, 0), (2, 0), (1, 1)]"
    by blast
  moreover have "map (\<lambda>n. map_of [(0, 0), (1, 0), (2, 0)] n \<noteq> None
              \<and> set (neighbors path3 n) \<subseteq> set [0, 1, 2]) [0, 1, 2] = [True, True, True]"
    by (simp add: path3_def neighbors_def)
  ultimately show ?thesis using r b ids asg same by blast
qed

subsection \<open>The bound \<^verbatim>\<open>higher_than_any_internal_label\<close>\<close>

lemma fold_max_ge: "(y::int) \<le> fold max ys y \<and> (\<forall>x \<in> set ys. x \<le> fold max ys y)"
proof (induction ys arbitrary: y)
  case Nil
  then show ?case by simp
next
  case (Cons a ys)
  have "max a y \<le> fold max ys (max a y)" "\<forall>x \<in> set ys. x \<le> fold max ys (max a y)"
    using Cons.IH[of "max a y"] by auto
  then show ?case by auto
qed

lemma fold_max_in: "fold max ys (y::int) \<in> insert y (set ys)"
proof (induction ys arbitrary: y)
  case Nil
  then show ?case by simp
next
  case (Cons a ys)
  have s: "fold max (a # ys) y = fold max ys (max a y)" by simp
  have "fold max ys (max a y) \<in> insert (max a y) (set ys)" by (rule Cons.IH)
  moreover have "max a y = a \<or> max a y = y" by linarith
  ultimately show ?case unfolding s by auto
qed

lemma py_max_Inr:
  "py_max xs = Inr m \<longleftrightarrow> xs \<noteq> [] \<and> m = Max (set xs)"
proof (cases xs)
  case Nil
  then show ?thesis by (simp add: py_max_def)
next
  case (Cons y ys)
  have "fold max ys y = Max (set (y # ys))"
    by (rule sym, rule Max_eqI) (use fold_max_ge[of y ys] fold_max_in[of ys y] in auto)
  then show ?thesis using Cons by (auto simp: py_max_def)
qed

lemma map_of_dict_of: "map_of (dict_of kvs) = map_of (rev kvs)"
proof -
  have "map_of (foldl (\<lambda>d (k, v). dict_set d k v) d kvs) = map_of d ++ map_of (rev kvs)" for d
  proof (induction kvs arbitrary: d)
    case Nil
    then show ?case by simp
  next
    case (Cons kv kvs)
    obtain k v where kv: "kv = (k, v)" by (cases kv)
    have "map_of (foldl (\<lambda>d (k, v). dict_set d k v) d (kv # kvs))
        = map_of (dict_set d k v) ++ map_of (rev kvs)"
      using Cons.IH[of "dict_set d k v"] kv by simp
    also have "\<dots> = map_of d ++ map_of (rev (kv # kvs))"
      by (simp add: kv map_of_dict_set map_add_def fun_eq_iff split: option.splits)
    finally show ?case .
  qed
  from this[of "[]"] show ?thesis by (simp add: dict_of_def)
qed

lemma map_of_functional:
  assumes "\<forall>(k, v) \<in> set kvs. v = f k" and "k \<in> fst ` set kvs"
  shows "map_of kvs k = Some (f k)"
proof -
  obtain v where "map_of kvs k = Some v"
    using assms(2) by (metis domD dom_map_of_conv_image_fst)
  moreover from this have "(k, v) \<in> set kvs" by (rule map_of_SomeD)
  ultimately show ?thesis using assms(1) by auto
qed

lemma overlay_labels_Inr:
  assumes "overlay_labels ov H labels ns = Inr keys" and "n \<in> set ns"
  shows "\<exists>v l. map_of ov n = Some v \<and> map_of labels n = Some l \<and> map_of keys n = Some (v * H + l)"
proof -
  define g where "g = (\<lambda>n. case dict_get ov n of
                           Inl e \<Rightarrow> Inl e
                         | Inr v \<Rightarrow> (case dict_get labels n of
                                      Inl e \<Rightarrow> Inl e
                                    | Inr l \<Rightarrow> Inr (n, v * H + l)))"
  obtain kvs where kvs: "map_err g ns = Inr kvs" and keys: "keys = dict_of kvs"
    using assms(1) by (auto simp: overlay_labels_def g_def split: sum.splits)
  have l2: "list_all2 (\<lambda>x y. g x = Inr y) ns kvs" using kvs by (simp add: map_err_Inr)
  have each: "\<forall>(k, x) \<in> set kvs. k \<in> set ns \<and> g k = Inr (k, x)"
    using l2 by (induction ns kvs rule: list_all2_induct) (auto simp: g_def split: sum.splits)
  have fsts: "map fst kvs = ns"
    using l2 by (induction ns kvs rule: list_all2_induct) (auto simp: g_def split: sum.splits)
  define f where "f = (\<lambda>k. the (map_of ov k) * H + the (map_of labels k))"
  have fn: "\<forall>(k, x) \<in> set (rev kvs). x = f k"
    using each by (auto simp: g_def f_def dict_get_def split: option.splits)
  have "n \<in> fst ` set (rev kvs)" using fsts assms(2) by (metis set_map set_rev)
  then have k: "map_of keys n = Some (f n)"
    unfolding keys map_of_dict_of using map_of_functional[OF fn] by simp
  obtain x where "(n, x) \<in> set kvs" using fsts assms(2) by (metis (no_types) fst_conv imageE set_map prod.collapse)
  then have "g n = Inr (n, x)" using each by auto
  then obtain v l where "map_of ov n = Some v" "map_of labels n = Some l"
    by (auto simp: g_def dict_get_def split: option.splits)
  then show ?thesis using k by (simp add: f_def)
qed

lemma key_injective:
  fixes H :: int
  assumes "0 \<le> l" "l < H" "0 \<le> l'" "l' < H" "v * H + l = v' * H + l'"
  shows "v = v' \<and> l = l'"
proof -
  have H0: "H \<noteq> 0" using assms by linarith
  have "(l + v * H) div H = l div H + v" "(l' + v' * H) div H = l' div H + v'"
    using H0 by simp_all
  moreover have "l div H = 0" "l' div H = 0"
    using assms by (simp_all add: div_pos_pos_trivial)
  moreover have "l + v * H = l' + v' * H" using assms(5) by (simp add: add.commute)
  ultimately have "v = v'" by simp
  then show "v = v' \<and> l = l'" using assms(5) by simp
qed

lemma overlay_labels_no_collision:
  assumes ol: "overlay_labels ov H cur ns = Inr keys"
    and rng: "\<forall>n \<in> set ns. \<forall>l. map_of cur n = Some l \<longrightarrow> 0 \<le> l \<and> l < H"
    and a: "a \<in> set ns" and b: "b \<in> set ns" and e: "map_of keys a = map_of keys b"
  shows "map_of ov a = map_of ov b \<and> map_of cur a = map_of cur b"
proof -
  obtain v l where A: "map_of ov a = Some v" "map_of cur a = Some l" "map_of keys a = Some (v * H + l)"
    using overlay_labels_Inr[OF ol a] by blast
  obtain v' l' where B: "map_of ov b = Some v'" "map_of cur b = Some l'"
    "map_of keys b = Some (v' * H + l')"
    using overlay_labels_Inr[OF ol b] by blast
  have "0 \<le> l \<and> l < H" "0 \<le> l' \<and> l' < H" using rng a b A(2) B(2) by auto
  moreover have "v * H + l = v' * H + l'" using e A(3) B(3) by simp
  ultimately have "v = v' \<and> l = l'" using key_injective by blast
  then show ?thesis using A B by simp
qed

lemma assign_loop_range:
  assumes "assign_loop ne ids prev nxt nl defs = Inr (nl', defs')"
    and "- 1 \<le> nxt" and "prev \<noteq> None \<longrightarrow> 0 \<le> nxt"
  shows "(\<forall>n \<in> fst ` set ids. \<exists>v. map_of nl' n = Some v \<and> 0 \<le> v \<and> v \<le> nxt + int (length ids))
       \<and> (\<forall>n. n \<notin> fst ` set ids \<longrightarrow> map_of nl' n = map_of nl n)"
  using assms
proof (induction ids arbitrary: prev nxt nl defs)
  case Nil
  then show ?case by simp
next
  case (Cons cur rest)
  obtain ch where chk: "(case prev of None \<Rightarrow> Inr True | Some p \<Rightarrow> ne p (snd cur)) = Inr ch"
    using Cons.prems(1)
    by (cases "(case prev of None \<Rightarrow> Inr True | Some p \<Rightarrow> ne p (snd cur))") auto
  define nxt2 where "nxt2 = (if ch then nxt + 1 else nxt)"
  define defs2 where "defs2 = (if ch then defs @ [snd cur] else defs)"
  have run: "assign_loop ne rest (Some (snd cur)) nxt2 (dict_set nl (fst cur) nxt2) defs2
      = Inr (nl', defs')"
    using Cons.prems(1) by (simp add: chk nxt2_def defs2_def Let_def)
  have pos: "0 \<le> nxt2"
  proof (cases prev)
    case None
    then have "ch" using chk by simp
    then show ?thesis using Cons.prems(2) by (simp add: nxt2_def)
  next
    case (Some p)
    then show ?thesis using Cons.prems(3) by (simp add: nxt2_def)
  qed
  have le: "nxt2 \<le> nxt + 1" by (simp add: nxt2_def)
  have IH: "(\<forall>n \<in> fst ` set rest. \<exists>v. map_of nl' n = Some v \<and> 0 \<le> v \<and> v \<le> nxt2 + int (length rest))
       \<and> (\<forall>n. n \<notin> fst ` set rest \<longrightarrow> map_of nl' n = map_of (dict_set nl (fst cur) nxt2) n)"
    by (rule Cons.IH[OF run]) (use pos in auto)
  have A: "\<forall>n \<in> fst ` set (cur # rest).
      \<exists>v. map_of nl' n = Some v \<and> 0 \<le> v \<and> v \<le> nxt + int (length (cur # rest))"
  proof
    fix n assume n: "n \<in> fst ` set (cur # rest)"
    show "\<exists>v. map_of nl' n = Some v \<and> 0 \<le> v \<and> v \<le> nxt + int (length (cur # rest))"
    proof (cases "n \<in> fst ` set rest")
      case True
      then obtain v where "map_of nl' n = Some v" "0 \<le> v" "v \<le> nxt2 + int (length rest)"
        using conjunct1[OF IH] by blast
      then show ?thesis using le by (intro exI[of _ v]) simp
    next
      case False
      then have "n = fst cur" using n by auto
      then have "map_of nl' n = Some nxt2"
        using conjunct2[OF IH] False by (simp add: map_of_dict_set)
      then show ?thesis using pos le by (intro exI[of _ nxt2]) simp
    qed
  qed
  have B: "\<forall>n. n \<notin> fst ` set (cur # rest) \<longrightarrow> map_of nl' n = map_of nl n"
    using conjunct2[OF IH] by (simp add: map_of_dict_set)
  show ?case using A B by (intro conjI)
qed


lemma insert_sorted_length:
  "insert_sorted lt x ys = Inr zs \<Longrightarrow> length zs = Suc (length ys)"
proof (induction ys arbitrary: zs)
  case Nil
  then show ?case by auto
next
  case (Cons y ys)
  obtain b where b: "lt (snd x) (snd y) = Inr b"
    using Cons.prems by (cases "lt (snd x) (snd y)") auto
  show ?case
  proof (cases b)
    case True
    then have "zs = x # y # ys" using Cons.prems b by simp
    then show ?thesis by auto
  next
    case False
    then obtain zs' where z: "insert_sorted lt x ys = Inr zs'" "zs = y # zs'"
      using Cons.prems b by (cases "insert_sorted lt x ys") auto
    from Cons.IH[OF z(1)] z(2) show ?thesis by auto
  qed
qed

lemma sort_ids_length:
  "sort_ids lt xs acc = Inr zs \<Longrightarrow> length zs = length xs + length acc"
proof (induction xs arbitrary: acc zs)
  case Nil
  then show ?case by auto
next
  case (Cons x xs)
  obtain acc' where a: "insert_sorted lt x acc = Inr acc'" "sort_ids lt xs acc' = Inr zs"
    using Cons.prems by (cases "insert_sorted lt x acc") auto
  from Cons.IH[OF a(2)] insert_sorted_length[OF a(1)] show ?case by auto
qed

lemma get_new_ids_in_order_nodewise_length:
  assumes "get_new_ids_in_order_nodewise G ns H labels ov = Inr (ids, ov')"
  shows "length ids = length ns"
proof -
  obtain raw where raw: "nodewise_ids G ns H labels ns ov = Inr (raw, ov')"
    and s: "sort_ids key_lt raw [] = Inr ids"
    using assms by (auto simp: get_new_ids_in_order_nodewise_def split: sum.splits prod.splits)
  have "length raw = length ns" using nodewise_ids_props[OF raw] by (metis length_map)
  then show ?thesis using sort_ids_length[OF s] by simp
qed

lemma assigned_labels_in_range:
  assumes asg: "assign_new_labels_for_sorted_ids ne ids = Inr (new_labels, defs)"
    and n: "n \<in> fst ` set ids"
  shows "\<exists>l. map_of new_labels n = Some l \<and> 0 \<le> l \<and> l < int (length ids)"
proof -
  have run: "assign_loop ne ids None (- 1) [] [] = Inr (new_labels, defs)"
    using asg by (simp add: assign_new_labels_for_sorted_ids_def)
  have "\<forall>n \<in> fst ` set ids. \<exists>v. map_of new_labels n = Some v \<and> 0 \<le> v
          \<and> v \<le> - 1 + int (length ids)"
    by (rule conjunct1[OF assign_loop_range[OF run]]) auto
  then obtain v where "map_of new_labels n = Some v" "0 \<le> v" "v \<le> - 1 + int (length ids)"
    using n by blast
  then show ?thesis by (intro exI[of _ v]) simp
qed

text \<open>Three isolated nodes, and two isolated nodes.\<close>

definition three_isolated :: graph where
  "three_isolated = \<lparr>nodes = [0, 1, 2], edges = []\<rparr>"

definition two_isolated :: graph where
  "two_isolated = \<lparr>nodes = [0, 1], edges = []\<rparr>"

text \<open>
  C3, as amended. The bound \<open>H\<close> is at least the node count (not strictly greater) and
  strictly greater than every label given at construction. The key
  \<^verbatim>\<open>overlay[n] * H + internal_labels[n]\<close> of line 68, computed by \<open>overlay_labels\<close>, is free of
  collisions in the first round when no label given at construction is negative, and
  in every later round without condition: the labels a nodewise round assigns lie in
  \<open>0 ..< H\<close>, and two nodes with equal keys have equal overlay values and equal labels.
\<close>

theorem higher_than_any_internal_label_bound:
  assumes "compute_higher_than_any_internal_label ns labels = Inr H"
  shows "int (length ns) \<le> H
     \<and> (\<forall>(n, l) \<in> set labels. l < H)
     \<and> ((\<forall>(n, l) \<in> set labels. 0 \<le> l) \<longrightarrow>
          (\<forall>ov keys. overlay_labels ov H labels ns = Inr keys \<longrightarrow>
             (\<forall>a \<in> set ns. \<forall>b \<in> set ns. map_of keys a = map_of keys b \<longrightarrow>
                map_of ov a = map_of ov b \<and> map_of labels a = map_of labels b)))
     \<and> (\<forall>G cur ovs ids ovs' new_labels defs.
          get_new_ids_in_order_nodewise G ns H cur ovs = Inr (ids, ovs')
          \<and> assign_new_labels_for_sorted_ids key_ne ids = Inr (new_labels, defs) \<longrightarrow>
            (\<forall>n \<in> set ns. \<exists>l. map_of new_labels n = Some l \<and> 0 \<le> l \<and> l < H)
          \<and> (\<forall>ov keys. overlay_labels ov H new_labels ns = Inr keys \<longrightarrow>
               (\<forall>a \<in> set ns. \<forall>b \<in> set ns. map_of keys a = map_of keys b \<longrightarrow>
                  map_of ov a = map_of ov b \<and> map_of new_labels a = map_of new_labels b)))"
proof -
  obtain m where m: "py_max (map snd labels) = Inr m" and H: "H = max (int (length ns)) (m + 1)"
    using assms by (auto simp: compute_higher_than_any_internal_label_def split: sum.splits)
  have mx: "m = Max (set (map snd labels))" using m by (simp add: py_max_Inr)
  have len: "int (length ns) \<le> H" using H by simp
  have lab: "\<forall>(n, l) \<in> set labels. l < H"
  proof (clarify)
    fix n l assume "(n, l) \<in> set labels"
    then have "l \<in> set (map snd labels)" by force
    then have "l \<le> m" unfolding mx by (intro Max_ge) auto
    then show "l < H" using H by simp
  qed
  have first: "(\<forall>(n, l) \<in> set labels. 0 \<le> l) \<longrightarrow>
          (\<forall>ov keys. overlay_labels ov H labels ns = Inr keys \<longrightarrow>
             (\<forall>a \<in> set ns. \<forall>b \<in> set ns. map_of keys a = map_of keys b \<longrightarrow>
                map_of ov a = map_of ov b \<and> map_of labels a = map_of labels b))"
  proof (intro impI allI ballI)
    fix ov keys a b
    assume nonneg: "\<forall>(n, l) \<in> set labels. 0 \<le> l"
      and ol: "overlay_labels ov H labels ns = Inr keys"
      and ab: "a \<in> set ns" "b \<in> set ns" "map_of keys a = map_of keys b"
    have rng: "\<forall>n \<in> set ns. \<forall>l. map_of labels n = Some l \<longrightarrow> 0 \<le> l \<and> l < H"
    proof (intro ballI allI impI)
      fix n l assume "map_of labels n = Some l"
      then have "(n, l) \<in> set labels" by (rule map_of_SomeD)
      then show "0 \<le> l \<and> l < H" using nonneg lab by auto
    qed
    show "map_of ov a = map_of ov b \<and> map_of labels a = map_of labels b"
      by (rule overlay_labels_no_collision[OF ol rng ab])
  qed
  have later: "\<forall>G cur ovs ids ovs' new_labels defs.
          get_new_ids_in_order_nodewise G ns H cur ovs = Inr (ids, ovs')
          \<and> assign_new_labels_for_sorted_ids key_ne ids = Inr (new_labels, defs) \<longrightarrow>
            (\<forall>n \<in> set ns. \<exists>l. map_of new_labels n = Some l \<and> 0 \<le> l \<and> l < H)
          \<and> (\<forall>ov keys. overlay_labels ov H new_labels ns = Inr keys \<longrightarrow>
               (\<forall>a \<in> set ns. \<forall>b \<in> set ns. map_of keys a = map_of keys b \<longrightarrow>
                  map_of ov a = map_of ov b \<and> map_of new_labels a = map_of new_labels b))"
  proof (intro allI impI, elim conjE)
    fix G cur ovs ids ovs' new_labels and defs :: "nodewise_key list"
    assume g: "get_new_ids_in_order_nodewise G ns H cur ovs = Inr (ids, ovs')"
      and asg: "assign_new_labels_for_sorted_ids key_ne ids = Inr (new_labels, defs)"
    have fs: "fst ` set ids = set ns" by (rule get_new_ids_in_order_nodewise_props(1)[OF g])
    have ln: "length ids = length ns" by (rule get_new_ids_in_order_nodewise_length[OF g])
    have R: "\<forall>n \<in> set ns. \<exists>l. map_of new_labels n = Some l \<and> 0 \<le> l \<and> l < H"
    proof
      fix n assume "n \<in> set ns"
      then have "n \<in> fst ` set ids" using fs by simp
      then obtain l where "map_of new_labels n = Some l" "0 \<le> l" "l < int (length ids)"
        using assigned_labels_in_range[OF asg] by blast
      then show "\<exists>l. map_of new_labels n = Some l \<and> 0 \<le> l \<and> l < H"
        using ln len by (intro exI[of _ l]) simp
    qed
    have rng: "\<forall>n \<in> set ns. \<forall>l. map_of new_labels n = Some l \<longrightarrow> 0 \<le> l \<and> l < H"
      using R by fastforce
    have C: "\<forall>ov keys. overlay_labels ov H new_labels ns = Inr keys \<longrightarrow>
               (\<forall>a \<in> set ns. \<forall>b \<in> set ns. map_of keys a = map_of keys b \<longrightarrow>
                  map_of ov a = map_of ov b \<and> map_of new_labels a = map_of new_labels b)"
    proof (intro allI impI ballI)
      fix ov keys a b
      assume ol: "overlay_labels ov H new_labels ns = Inr keys"
        and ab: "a \<in> set ns" "b \<in> set ns" "map_of keys a = map_of keys b"
      show "map_of ov a = map_of ov b \<and> map_of new_labels a = map_of new_labels b"
        by (rule overlay_labels_no_collision[OF ol rng ab])
    qed
    show "(\<forall>n \<in> set ns. \<exists>l. map_of new_labels n = Some l \<and> 0 \<le> l \<and> l < H)
          \<and> (\<forall>ov keys. overlay_labels ov H new_labels ns = Inr keys \<longrightarrow>
               (\<forall>a \<in> set ns. \<forall>b \<in> set ns. map_of keys a = map_of keys b \<longrightarrow>
                  map_of ov a = map_of ov b \<and> map_of new_labels a = map_of new_labels b))"
      using R C by (rule conjI)
  qed
  show ?thesis using len lab first later by (intro conjI)
qed

text \<open>
  The claim as stated fails twice. On three isolated nodes labelled 0 the bound is 3,
  the node count. On two isolated nodes labelled \<open>-5\<close> and 1 the bound is 2; the plain
  instance that gives the basic overlay keeps these labels, the overlay the constructor
  builds for node 0 is \<open>{0: 4, 1: 1}\<close>, and both nodes get the key 3 although their
  overlay values and their labels differ.
\<close>

theorem higher_than_any_internal_label_counterexample:
  "compute_higher_than_any_internal_label (nodes three_isolated) [(0, 0), (1, 0), (2, 0)] = Inr 3
   \<and> \<not> (int (length (nodes three_isolated)) < 3)
   \<and> compute_higher_than_any_internal_label (nodes two_isolated) [(0, - 5), (1, 1)] = Inr 2
   \<and> map_sum id self_internal_labels (init_plain two_isolated (Some [(0, - 5), (1, 1)]))
        = Inr [(0, - 5), (1, 1)]
   \<and> initial_overlay two_isolated (nodes two_isolated) [(0, - 5), (1, 1)] [(0, - 5), (1, 1)] 0
        = Inr [(0, 4), (1, 1)]
   \<and> overlay_labels [(0, 4), (1, 1)] 2 [(0, - 5), (1, 1)] (nodes two_isolated)
        = Inr [(0, 3), (1, 3)]"
proof -
  have a: "compute_higher_than_any_internal_label (nodes three_isolated)
             [(0, 0), (1, 0), (2, 0)] = Inr 3"
    by (simp add: compute_higher_than_any_internal_label_def py_max_def three_isolated_def)
  have b: "\<not> (int (length (nodes three_isolated)) < 3)" by (simp add: three_isolated_def)
  have c: "compute_higher_than_any_internal_label (nodes two_isolated) [(0, - 5), (1, 1)] = Inr 2"
    by (simp add: compute_higher_than_any_internal_label_def py_max_def two_isolated_def)
  have d: "map_sum id self_internal_labels (init_plain two_isolated (Some [(0, - 5), (1, 1)]))
        = Inr [(0, - 5), (1, 1)]"
    by code_simp
  have e: "initial_overlay two_isolated (nodes two_isolated) [(0, - 5), (1, 1)]
             [(0, - 5), (1, 1)] 0 = Inr [(0, 4), (1, 1)]"
    by code_simp
  have f: "overlay_labels [(0, 4), (1, 1)] 2 [(0, - 5), (1, 1)] (nodes two_isolated)
        = Inr [(0, 3), (1, 3)]"
    by code_simp
  show ?thesis using a b c d e f by (intro conjI)
qed

theorem higher_than_any_internal_label_bound_witness:
  "compute_higher_than_any_internal_label [0, 1] [(0, 0), (1, 4)] = Inr 5
   \<and> int (length [0, 1 :: int]) \<le> 5
   \<and> overlay_labels [(0, 1), (1, 0)] 5 [(0, 0), (1, 4)] [0, 1] = Inr [(0, 5), (1, 4)]
   \<and> map_of ([(0, 5), (1, 4)] :: dict) 0 \<noteq> map_of ([(0, 5), (1, 4)] :: dict) 1
   \<and> (case get_new_ids_in_order_nodewise two_isolated [0, 1] 5 [(0, 0), (1, 4)]
              [(0, [(0, 1), (1, 0)]), (1, [(0, 0), (1, 1)])] of
         Inl e \<Rightarrow> None
       | Inr (ids, ovs) \<Rightarrow>
           (case assign_new_labels_for_sorted_ids key_ne ids of
              Inl e \<Rightarrow> None
            | Inr (new_labels, defs) \<Rightarrow> Some new_labels)) = Some [(0, 0), (1, 1)]
   \<and> (\<exists>l. map_of ([(0, 0), (1, 1)] :: dict) 1 = Some l \<and> 0 \<le> l \<and> l < 5)"
proof -
  have c: "compute_higher_than_any_internal_label [0, 1] [(0, 0), (1, 4)] = Inr 5"
    by (simp add: compute_higher_than_any_internal_label_def py_max_def)
  note T = higher_than_any_internal_label_bound[OF c]
  have len: "int (length [0, 1 :: int]) \<le> 5" using conjunct1[OF T] .
  have ol: "overlay_labels [(0, 1), (1, 0)] 5 [(0, 0), (1, 4)] [0, 1] = Inr [(0, 5), (1, 4)]"
    by code_simp
  have nonneg: "\<forall>(n, l) \<in> set [(0 :: int, 0 :: int), (1, 4)]. 0 \<le> l" by simp
  note F0 = mp[OF conjunct1[OF conjunct2[OF conjunct2[OF T]]] nonneg]
  note F = F0[rule_format, OF ol]
  have ne: "map_of ([(0, 5), (1, 4)] :: dict) 0 \<noteq> map_of ([(0, 5), (1, 4)] :: dict) 1"
  proof
    assume eq: "map_of ([(0, 5), (1, 4)] :: dict) 0 = map_of ([(0, 5), (1, 4)] :: dict) 1"
    have "map_of ([(0, 1), (1, 0)] :: dict) 0 = map_of ([(0, 1), (1, 0)] :: dict) 1
        \<and> map_of ([(0, 0), (1, 4)] :: dict) 0 = map_of ([(0, 0), (1, 4)] :: dict) 1"
      using F[where a = 0 and b = 1] eq by simp
    then show False by simp
  qed
  have ev: "(case get_new_ids_in_order_nodewise two_isolated [0, 1] 5 [(0, 0), (1, 4)]
              [(0, [(0, 1), (1, 0)]), (1, [(0, 0), (1, 1)])] of
         Inl e \<Rightarrow> None
       | Inr (ids, ovs) \<Rightarrow>
           (case assign_new_labels_for_sorted_ids key_ne ids of
              Inl e \<Rightarrow> None
            | Inr (new_labels, defs) \<Rightarrow> Some new_labels)) = Some [(0, 0), (1, 1)]"
    by code_simp
  then obtain ids ovs defs where
    g: "get_new_ids_in_order_nodewise two_isolated [0, 1] 5 [(0, 0), (1, 4)]
              [(0, [(0, 1), (1, 0)]), (1, [(0, 0), (1, 1)])] = Inr (ids, ovs)"
    and a: "assign_new_labels_for_sorted_ids key_ne ids = Inr ([(0, 0), (1, 1)], defs)"
    by (auto split: sum.splits prod.splits)
  have later: "\<forall>n \<in> set [0, 1 :: int].
      \<exists>l. map_of ([(0, 0), (1, 1)] :: dict) n = Some l \<and> 0 \<le> l \<and> l < 5"
    by (rule conjunct1[OF conjunct2[OF conjunct2[OF conjunct2[OF T]], rule_format,
                            OF conjI[OF g a]]])
  then have rng: "\<exists>l. map_of ([(0, 0), (1, 1)] :: dict) 1 = Some l \<and> 0 \<le> l \<and> l < 5"
    by simp
  show ?thesis using c len ol ne ev rng by (intro conjI)
qed

subsection \<open>The labels assigned in a round\<close>

lemma assign_loop_plain_labels:
  assumes "assign_loop ne_plain ids prev nxt nl defs = Inr (nl', defs')"
    and "nxt = int (length defs) - 1"
    and "\<forall>p. prev = Some p \<longrightarrow> defs \<noteq> [] \<and> last defs = p"
    and "distinct (map fst ids)"
  shows "(\<exists>suffix. defs' = defs @ suffix)
     \<and> (\<forall>(n, key) \<in> set ids. \<exists>i < length defs'. map_of nl' n = Some (int i) \<and> defs' ! i = key)
     \<and> (\<forall>n. n \<notin> fst ` set ids \<longrightarrow> map_of nl' n = map_of nl n)"
  using assms
proof (induction ids arbitrary: prev nxt nl defs)
  case Nil
  then show ?case by simp
next
  case (Cons cur rest)
  define ch where "ch = (case prev of None \<Rightarrow> True | Some p \<Rightarrow> p \<noteq> snd cur)"
  define nxt2 where "nxt2 = (if ch then nxt + 1 else nxt)"
  define defs2 where "defs2 = (if ch then defs @ [snd cur] else defs)"
  have chk: "(case prev of None \<Rightarrow> Inr True | Some p \<Rightarrow> ne_plain p (snd cur)) = Inr ch"
    by (cases prev) (auto simp: ch_def ne_plain_def)
  have run: "assign_loop ne_plain rest (Some (snd cur)) nxt2 (dict_set nl (fst cur) nxt2) defs2
      = Inr (nl', defs')"
    using Cons.prems(1) by (simp add: chk nxt2_def defs2_def Let_def)
  have last2: "defs2 \<noteq> [] \<and> last defs2 = snd cur"
  proof (cases ch)
    case True
    then show ?thesis by (simp add: defs2_def)
  next
    case False
    then obtain p where "prev = Some p" "p = snd cur" by (cases prev) (auto simp: ch_def)
    then show ?thesis using Cons.prems(3) False by (simp add: defs2_def)
  qed
  have n2: "nxt2 = int (length defs2) - 1"
    using Cons.prems(2) by (simp add: nxt2_def defs2_def)
  have d2: "distinct (map fst rest)" and fresh: "fst cur \<notin> fst ` set rest"
    using Cons.prems(4) by auto
  have IH: "(\<exists>suffix. defs' = defs2 @ suffix)
     \<and> (\<forall>(n, key) \<in> set rest. \<exists>i < length defs'. map_of nl' n = Some (int i) \<and> defs' ! i = key)
     \<and> (\<forall>n. n \<notin> fst ` set rest \<longrightarrow> map_of nl' n = map_of (dict_set nl (fst cur) nxt2) n)"
    by (rule Cons.IH[OF run n2 _ d2]) (use last2 in simp)
  then obtain suffix where suf: "defs' = defs2 @ suffix" by blast
  have IH_mid: "\<forall>(n, key) \<in> set rest.
      \<exists>i < length defs'. map_of nl' n = Some (int i) \<and> defs' ! i = key"
    by (rule conjunct1[OF conjunct2[OF IH]])
  have IH_last: "\<forall>n. n \<notin> fst ` set rest \<longrightarrow>
      map_of nl' n = map_of (dict_set nl (fst cur) nxt2) n"
    by (rule conjunct2[OF conjunct2[OF IH]])
  have pre: "\<exists>suffix. defs' = defs @ suffix"
    using suf by (auto simp: defs2_def)
  have cur_lab: "map_of nl' (fst cur) = Some nxt2"
    using IH_last fresh by (simp add: map_of_dict_set)
  have len2: "0 < length defs2" using last2 by simp
  have "defs' ! (length defs2 - 1) = defs2 ! (length defs2 - 1)"
    using suf len2 by (simp add: nth_append)
  also have "\<dots> = last defs2" using last2 last_conv_nth[of defs2] by simp
  finally have idx: "defs' ! (length defs2 - 1) = snd cur" using last2 by simp
  have cur_ok: "\<exists>i < length defs'. map_of nl' (fst cur) = Some (int i) \<and> defs' ! i = snd cur"
  proof (intro exI conjI)
    have "length defs2 - 1 < length defs2" using last2 by (cases defs2) auto
    moreover have "length defs' = length defs2 + length suffix" using suf by simp
    ultimately show "length defs2 - 1 < length defs'" by linarith
    have "int (length defs2 - 1) = int (length defs2) - 1"
      using last2 by (cases defs2) auto
    then show "map_of nl' (fst cur) = Some (int (length defs2 - 1))"
      using cur_lab n2 by simp
    show "defs' ! (length defs2 - 1) = snd cur" by (rule idx)
  qed
  have others: "\<forall>n. n \<notin> fst ` set (cur # rest) \<longrightarrow> map_of nl' n = map_of nl n"
    using IH_last by (simp add: map_of_dict_set)
  have all: "\<forall>(n, key) \<in> set (cur # rest).
      \<exists>i < length defs'. map_of nl' n = Some (int i) \<and> defs' ! i = key"
  proof (clarify)
    fix n key assume m: "(n, key) \<in> set (cur # rest)"
    show "\<exists>i < length defs'. map_of nl' n = Some (int i) \<and> defs' ! i = key"
    proof (cases "(n, key) = cur")
      case True
      then show ?thesis using cur_ok by auto
    next
      case False
      then have "(n, key) \<in> set rest" using m by simp
      then show ?thesis using IH_mid by fast
    qed
  qed
  show ?case using pre all others by (intro conjI)
qed

lemma assign_loop_plain_defs:
  assumes "assign_loop ne_plain ids prev nxt nl defs = Inr (nl', defs')"
    and "sorted (map snd ids)"
    and "sorted_wrt (<) defs"
    and "\<forall>p. prev = Some p \<longrightarrow> defs \<noteq> [] \<and> last defs = p"
    and "prev = None \<longrightarrow> defs = []"
    and "\<forall>p. prev = Some p \<longrightarrow> (\<forall>k \<in> snd ` set ids. p \<le> k)"
    and "\<forall>p. prev = Some p \<longrightarrow> (\<forall>x \<in> set defs. x \<le> p)"
  shows "sorted_wrt (<) defs' \<and> set defs' = set defs \<union> snd ` set ids"
  using assms
proof (induction ids arbitrary: prev nxt nl defs)
  case Nil
  then show ?case by simp
next
  case (Cons cur rest)
  define ch where "ch = (case prev of None \<Rightarrow> True | Some p \<Rightarrow> p \<noteq> snd cur)"
  define nxt2 where "nxt2 = (if ch then nxt + 1 else nxt)"
  define defs2 where "defs2 = (if ch then defs @ [snd cur] else defs)"
  have chk: "(case prev of None \<Rightarrow> Inr True | Some p \<Rightarrow> ne_plain p (snd cur)) = Inr ch"
    by (cases prev) (auto simp: ch_def ne_plain_def)
  have run: "assign_loop ne_plain rest (Some (snd cur)) nxt2 (dict_set nl (fst cur) nxt2) defs2
      = Inr (nl', defs')"
    using Cons.prems(1) by (simp add: chk nxt2_def defs2_def Let_def)
  have srt: "sorted (map snd rest)" and le: "\<forall>k \<in> snd ` set rest. snd cur \<le> k"
    using Cons.prems(2) by auto
  have last2: "defs2 \<noteq> [] \<and> last defs2 = snd cur" and set2: "set defs2 = set defs \<union> {snd cur}"
    and sw2: "sorted_wrt (<) defs2"
  proof -
    show "defs2 \<noteq> [] \<and> last defs2 = snd cur"
    proof (cases ch)
      case True
      then show ?thesis by (simp add: defs2_def)
    next
      case False
      then obtain p where "prev = Some p" "p = snd cur" by (cases prev) (auto simp: ch_def)
      then show ?thesis using Cons.prems(4) False by (simp add: defs2_def)
    qed
    show "set defs2 = set defs \<union> {snd cur}"
    proof (cases ch)
      case True
      then show ?thesis by (auto simp: defs2_def)
    next
      case False
      then obtain p where p: "prev = Some p" "p = snd cur" by (cases prev) (auto simp: ch_def)
      then have "snd cur \<in> set defs" using Cons.prems(4) last_in_set by metis
      then show ?thesis using False by (auto simp: defs2_def)
    qed
    show "sorted_wrt (<) defs2"
    proof (cases ch)
      case False
      then show ?thesis using Cons.prems(3) by (simp add: defs2_def)
    next
      case True
      show ?thesis
      proof (cases prev)
        case None
        then show ?thesis using Cons.prems(5) True by (simp add: defs2_def)
      next
        case (Some p)
        then have pl: "defs \<noteq> []" "last defs = p" "p \<le> snd cur" "p \<noteq> snd cur"
          using Cons.prems(4,6) True by (auto simp: ch_def)
        have "\<forall>x \<in> set defs. x \<le> p" using Cons.prems(7) Some by simp
        then have "\<forall>x \<in> set defs. x < snd cur" using pl(3,4) by auto
        then show ?thesis using Cons.prems(3) True by (simp add: defs2_def sorted_wrt_append)
      qed
    qed
  qed
  have up2: "\<forall>x \<in> set defs2. x \<le> snd cur"
  proof (cases prev)
    case None
    then show ?thesis using Cons.prems(5) set2 by simp
  next
    case (Some p)
    then have "p \<le> snd cur" "\<forall>x \<in> set defs. x \<le> p" using Cons.prems(6,7) by auto
    then show ?thesis using set2 by auto
  qed
  have IH: "sorted_wrt (<) defs' \<and> set defs' = set defs2 \<union> snd ` set rest"
    by (rule Cons.IH[OF run srt sw2]) (use last2 le up2 in auto)
  then show ?case using set2 by auto
qed

lemma get_new_ids_in_order_plain_sorted:
  assumes "get_new_ids_in_order_plain G ns labels = Inr ids"
  shows "sorted (map snd ids)" "length ids = length ns" "distinct ns \<Longrightarrow> distinct (map fst ids)"
proof -
  obtain raw where raw: "map_err (plain_id G labels) ns = Inr raw" and ids: "ids = sort_key snd raw"
    using assms by (auto simp: get_new_ids_in_order_plain_def split: sum.splits)
  have l2: "list_all2 (\<lambda>x y. plain_id G labels x = Inr y) ns raw"
    using raw by (simp add: map_err_Inr)
  then have "list_all2 (\<lambda>x y. fst y = x) ns raw"
    by (rule list_all2_mono) (auto dest: plain_id_Inr)
  then have m: "map fst raw = ns"
    by (induction ns raw rule: list_all2_induct) auto
  show "sorted (map snd ids)" using ids by simp
  show "length ids = length ns" using ids m by (metis length_map length_sort)
  assume d: "distinct ns"
  have "set (map fst ids) = set ns" using ids m by (metis set_map set_sort)
  moreover have "length (map fst ids) = length ns" using ids m by (metis length_map length_sort)
  ultimately have "card (set (map fst ids)) = length (map fst ids)"
    using d by (simp add: distinct_card)
  then show "distinct (map fst ids)" by (rule card_distinct)
qed

lemma assign_new_labels_plain_round:
  assumes "distinct ns" and "get_new_ids_in_order_plain G ns labels = Inr ids"
  shows "case assign_new_labels_for_sorted_ids ne_plain ids of
      Inl e \<Rightarrow> False
    | Inr (new_labels, defs) \<Rightarrow>
      defs = sorted_list_of_set (snd ` set ids)
    \<and> length defs \<le> length ns
    \<and> ran (map_of new_labels) = int ` {..<length defs}
    \<and> (\<forall>(n, key) \<in> set ids. \<forall>(n', key') \<in> set ids.
          map_of new_labels n = map_of new_labels n' \<longleftrightarrow> key = key')
    \<and> (\<forall>(n, key) \<in> set ids. \<exists>i < length defs.
          map_of new_labels n = Some (int i) \<and> defs ! i = key)"
proof -
  obtain r where "assign_loop ne_plain ids None (- 1) [] [] = Inr r"
    using assign_loop_plain_succeeds by blast
  then obtain nl defs where run: "assign_loop ne_plain ids None (- 1) [] [] = Inr (nl, defs)"
    by (cases r) auto
  have srt: "sorted (map snd ids)" and len: "length ids = length ns"
    and dst: "distinct (map fst ids)"
    using get_new_ids_in_order_plain_sorted[OF assms(2)] assms(1) by auto
  have L: "(\<exists>suffix. defs = [] @ suffix)
     \<and> (\<forall>(n, key) \<in> set ids. \<exists>i < length defs. map_of nl n = Some (int i) \<and> defs ! i = key)
     \<and> (\<forall>n. n \<notin> fst ` set ids \<longrightarrow> map_of nl n = map_of [] n)"
    by (rule assign_loop_plain_labels[OF run _ _ dst]) auto
  have lab: "\<forall>(n, key) \<in> set ids. \<exists>i < length defs. map_of nl n = Some (int i) \<and> defs ! i = key"
    by (rule conjunct1[OF conjunct2[OF L]])
  have D: "sorted_wrt (<) defs \<and> set defs = set [] \<union> snd ` set ids"
    by (rule assign_loop_plain_defs[OF run srt]) auto
  have sw: "sorted_wrt (<) defs" and sd: "set defs = snd ` set ids" using D by auto
  have dd: "distinct defs" and so: "sorted defs" using sw by (auto simp: strict_sorted_iff)
  have eq: "defs = sorted_list_of_set (snd ` set ids)"
    by (rule sorted_distinct_set_unique[OF so dd]) (use sd in auto)
  have "length defs = card (snd ` set ids)" using dd sd by (metis distinct_card)
  also have "\<dots> \<le> card (set ids)" by (rule card_image_le) simp
  also have "\<dots> \<le> length ids" by (rule card_length)
  finally have le: "length defs \<le> length ns" using len by simp
  have dom: "dom (map_of nl) = fst ` set ids" using assign_loop_dom[OF run] by simp
  have iff: "\<forall>(n, key) \<in> set ids. \<forall>(n', key') \<in> set ids.
          map_of nl n = map_of nl n' \<longleftrightarrow> key = key'"
  proof (clarify)
    fix n key n' key' assume a: "(n, key) \<in> set ids" "(n', key') \<in> set ids"
    obtain i where i: "i < length defs" "map_of nl n = Some (int i)" "defs ! i = key"
      using lab a(1) by fast
    obtain j where j: "j < length defs" "map_of nl n' = Some (int j)" "defs ! j = key'"
      using lab a(2) by fast
    have "i = j \<longleftrightarrow> key = key'" using nth_eq_iff_index_eq[OF dd i(1) j(1)] i(3) j(3) by auto
    then show "map_of nl n = map_of nl n' \<longleftrightarrow> key = key'" using i j by simp
  qed
  have ran: "ran (map_of nl) = int ` {..<length defs}"
  proof (intro equalityI subsetI)
    fix v assume "v \<in> ran (map_of nl)"
    then obtain n where n: "map_of nl n = Some v" by (auto simp: ran_def)
    then have "n \<in> fst ` set ids" using dom by auto
    then obtain key where "(n, key) \<in> set ids" by auto
    then obtain i where "i < length defs" "map_of nl n = Some (int i)" using lab by fast
    then show "v \<in> int ` {..<length defs}" using n by auto
  next
    fix v assume "v \<in> int ` {..<length defs}"
    then obtain i where i: "i < length defs" "v = int i" by auto
    then have "defs ! i \<in> snd ` set ids" using sd by (metis nth_mem)
    then obtain n where nk: "(n, defs ! i) \<in> set ids" by auto
    then obtain j where j: "j < length defs" "map_of nl n = Some (int j)" "defs ! j = defs ! i"
      using lab by fast
    then have "j = i" using nth_eq_iff_index_eq[OF dd j(1) i(1)] by simp
    then show "v \<in> ran (map_of nl)" using j i by (auto simp: ran_def)
  qed
  have asg: "assign_new_labels_for_sorted_ids ne_plain ids = Inr (nl, defs)"
    using run by (simp add: assign_new_labels_for_sorted_ids_def)
  have all: "defs = sorted_list_of_set (snd ` set ids)
    \<and> length defs \<le> length ns
    \<and> ran (map_of nl) = int ` {..<length defs}
    \<and> (\<forall>(n, key) \<in> set ids. \<forall>(n', key') \<in> set ids.
          map_of nl n = map_of nl n' \<longleftrightarrow> key = key')
    \<and> (\<forall>(n, key) \<in> set ids. \<exists>i < length defs.
          map_of nl n = Some (int i) \<and> defs ! i = key)"
    using eq le ran iff lab by (intro conjI)
  show ?thesis unfolding asg sum.case prod.case by (rule all)
qed

lemma compare_label_definitions_lex:
  "length xs = length ys \<Longrightarrow>
   compare_label_definitions xs ys = Inr (if xs < ys then - 1 else if ys < xs then 1 else 0)"
proof (induction xs ys rule: list_induct2)
  case Nil
  then show ?case by simp
next
  case (Cons x xs y ys)
  obtain a b where x: "x = (a, b)" by (cases x)
  obtain c d where y: "y = (c, d)" by (cases y)
  consider "a < c" | "c < a" | "a = c" "b < d" | "a = c" "d < b" | "a = c" "b = d"
    by (metis linorder_neqE_linordered_idom linorder_less_linear)
  then show ?case
  proof cases
    case 1
    then show ?thesis by (simp add: x y less_prod_def)
  next
    case 2
    then show ?thesis by (auto simp: x y less_prod_def)
  next
    case 3
    then show ?thesis by (auto simp: x y less_prod_def)
  next
    case 4
    then show ?thesis by (auto simp: x y less_prod_def)
  next
    case 5
    then show ?thesis using Cons.IH by (simp add: x y)
  qed
qed

text \<open>
  What \<^verbatim>\<open>full_comparison\<close> compares on plain instances (a proof device, not source
  code): the label pairings, then the label definitions. An instance is consistent
  when it has as many label definitions as its pairings have internal labels; the
  constructor only builds consistent instances, and on them \<^verbatim>\<open>full_comparison\<close> is the
  lexicographic comparison of these pairs.
\<close>

definition comparison_key :: "plain \<Rightarrow> (int \<times> int) list \<times> plain_key list" where
  "comparison_key p = (the (self_label_pairings p), self_label_definitions p)"

definition consistent_plain :: "plain \<Rightarrow> bool" where
  "consistent_plain p \<longleftrightarrow>
     (\<exists>ps. self_label_pairings p = Some ps
          \<and> length (self_label_definitions p) = card (fst ` set ps))"

lemma full_comparison_plain_lex:
  assumes "consistent_plain a" and "consistent_plain b"
  shows "full_comparison_plain a b =
     Inr (if comparison_key a < comparison_key b then - 1
          else if comparison_key b < comparison_key a then 1 else 0)"
proof -
  obtain ps where ps: "self_label_pairings a = Some ps"
    "length (self_label_definitions a) = card (fst ` set ps)"
    using assms(1) by (auto simp: consistent_plain_def)
  obtain qs where qs: "self_label_pairings b = Some qs"
    "length (self_label_definitions b) = card (fst ` set qs)"
    using assms(2) by (auto simp: consistent_plain_def)
  show ?thesis
  proof (cases "ps = qs")
    case False
    then show ?thesis using ps qs
      by (auto simp: full_comparison_plain_def comparison_key_def less_prod_def)
  next
    case True
    then have len: "length (self_label_definitions a) = length (self_label_definitions b)"
      using ps qs by simp
    show ?thesis using ps qs True compare_label_definitions_lex[OF len]
      by (simp add: full_comparison_plain_def comparison_key_def less_prod_def)
  qed
qed

text \<open>The same for a nodewise sort key \<^verbatim>\<open>(label, instance)\<close>.\<close>

definition nodewise_sort_key :: "nodewise_key \<Rightarrow> int \<times> (int \<times> int) list \<times> plain_key list" where
  "nodewise_sort_key k = (fst k, comparison_key (snd k))"

lemma key_lt_lex:
  assumes "consistent_plain (snd a)" and "consistent_plain (snd b)"
  shows "key_lt a b = Inr (nodewise_sort_key a < nodewise_sort_key b)"
  using full_comparison_plain_lex[OF assms]
  by (auto simp: key_lt_def nodewise_sort_key_def less_prod_def)

lemma key_ne_lex:
  assumes "consistent_plain (snd a)" and "consistent_plain (snd b)"
  shows "key_ne a b = Inr (nodewise_sort_key a \<noteq> nodewise_sort_key b)"
  using full_comparison_plain_lex[OF assms]
  by (auto simp: key_ne_def nodewise_sort_key_def less_prod_def prod_eq_iff)


lemma assign_loop_keyed_succeeds:
  assumes "\<forall>a \<in> S. \<forall>b \<in> S. ne a b = Inr (K a \<noteq> K b)"
    and "snd ` set ids \<subseteq> S" and "\<forall>p. prev = Some p \<longrightarrow> p \<in> S"
  shows "\<exists>r. assign_loop ne ids prev nxt nl defs = Inr r"
  using assms(2,3)
proof (induction ids arbitrary: prev nxt nl defs)
  case Nil
  then show ?case by simp
next
  case (Cons cur rest)
  have cs: "snd cur \<in> S" using Cons.prems(1) by simp
  obtain ch where ch: "(case prev of None \<Rightarrow> Inr True | Some p \<Rightarrow> ne p (snd cur)) = Inr ch"
    using assms(1) Cons.prems(2) cs by (cases prev) auto
  have "\<exists>r. assign_loop ne rest (Some (snd cur)) (if ch then nxt + 1 else nxt)
          (dict_set nl (fst cur) (if ch then nxt + 1 else nxt))
          (if ch then defs @ [snd cur] else defs) = Inr r"
    by (rule Cons.IH) (use Cons.prems(1) cs in auto)
  then show ?case by (simp add: ch Let_def)
qed

lemma assign_loop_keyed_labels:
  assumes "assign_loop ne ids prev nxt nl defs = Inr (nl', defs')"
    and "\<forall>a \<in> S. \<forall>b \<in> S. ne a b = Inr (K a \<noteq> K b)"
    and "snd ` set ids \<subseteq> S" and "\<forall>p. prev = Some p \<longrightarrow> p \<in> S"
    and "nxt = int (length defs) - 1"
    and "\<forall>p. prev = Some p \<longrightarrow> defs \<noteq> [] \<and> K (last defs) = K p"
    and "distinct (map fst ids)"
  shows "(\<exists>suffix. defs' = defs @ suffix)
     \<and> (\<forall>(n, key) \<in> set ids. \<exists>i < length defs'. map_of nl' n = Some (int i)
            \<and> K (defs' ! i) = K key)
     \<and> (\<forall>n. n \<notin> fst ` set ids \<longrightarrow> map_of nl' n = map_of nl n)"
  using assms(1,3,4,5,6,7)
proof (induction ids arbitrary: prev nxt nl defs)
  case Nil
  then show ?case by simp
next
  case (Cons cur rest)
  have cs: "snd cur \<in> S" using Cons.prems(2) by simp
  define ch where "ch = (case prev of None \<Rightarrow> True | Some p \<Rightarrow> K p \<noteq> K (snd cur))"
  define nxt2 where "nxt2 = (if ch then nxt + 1 else nxt)"
  define defs2 where "defs2 = (if ch then defs @ [snd cur] else defs)"
  have chk: "(case prev of None \<Rightarrow> Inr True | Some p \<Rightarrow> ne p (snd cur)) = Inr ch"
    using assms(2) Cons.prems(3) cs by (cases prev) (auto simp: ch_def)
  have run: "assign_loop ne rest (Some (snd cur)) nxt2 (dict_set nl (fst cur) nxt2) defs2
      = Inr (nl', defs')"
    using Cons.prems(1) by (simp add: chk nxt2_def defs2_def Let_def)
  have last2: "defs2 \<noteq> [] \<and> K (last defs2) = K (snd cur)"
  proof (cases ch)
    case True
    then show ?thesis by (simp add: defs2_def)
  next
    case False
    then obtain p where "prev = Some p" "K p = K (snd cur)" by (cases prev) (auto simp: ch_def)
    then show ?thesis using Cons.prems(5) False by (simp add: defs2_def)
  qed
  have n2: "nxt2 = int (length defs2) - 1"
    using Cons.prems(4) by (simp add: nxt2_def defs2_def)
  have d2: "distinct (map fst rest)" and fresh: "fst cur \<notin> fst ` set rest"
    using Cons.prems(6) by auto
  have IH: "(\<exists>suffix. defs' = defs2 @ suffix)
     \<and> (\<forall>(n, key) \<in> set rest. \<exists>i < length defs'. map_of nl' n = Some (int i)
            \<and> K (defs' ! i) = K key)
     \<and> (\<forall>n. n \<notin> fst ` set rest \<longrightarrow> map_of nl' n = map_of (dict_set nl (fst cur) nxt2) n)"
    by (rule Cons.IH[OF run _ _ n2 _ d2]) (use last2 Cons.prems(2) cs in auto)
  then obtain suffix where suf: "defs' = defs2 @ suffix" by blast
  have IH_mid: "\<forall>(n, key) \<in> set rest.
      \<exists>i < length defs'. map_of nl' n = Some (int i) \<and> K (defs' ! i) = K key"
    by (rule conjunct1[OF conjunct2[OF IH]])
  have IH_last: "\<forall>n. n \<notin> fst ` set rest \<longrightarrow>
      map_of nl' n = map_of (dict_set nl (fst cur) nxt2) n"
    by (rule conjunct2[OF conjunct2[OF IH]])
  have pre: "\<exists>suffix. defs' = defs @ suffix"
    using suf by (auto simp: defs2_def)
  have cur_lab: "map_of nl' (fst cur) = Some nxt2"
    using IH_last fresh by (simp add: map_of_dict_set)
  have len2: "0 < length defs2" using last2 by simp
  have "defs' ! (length defs2 - 1) = defs2 ! (length defs2 - 1)"
    using suf len2 by (simp add: nth_append)
  also have "\<dots> = last defs2" using last2 last_conv_nth[of defs2] by simp
  finally have idx: "K (defs' ! (length defs2 - 1)) = K (snd cur)" using last2 by simp
  have cur_ok: "\<exists>i < length defs'. map_of nl' (fst cur) = Some (int i)
      \<and> K (defs' ! i) = K (snd cur)"
  proof (intro exI conjI)
    have "length defs2 - 1 < length defs2" using last2 by (cases defs2) auto
    moreover have "length defs' = length defs2 + length suffix" using suf by simp
    ultimately show "length defs2 - 1 < length defs'" by linarith
    have "int (length defs2 - 1) = int (length defs2) - 1"
      using last2 by (cases defs2) auto
    then show "map_of nl' (fst cur) = Some (int (length defs2 - 1))"
      using cur_lab n2 by simp
    show "K (defs' ! (length defs2 - 1)) = K (snd cur)" by (rule idx)
  qed
  have others: "\<forall>n. n \<notin> fst ` set (cur # rest) \<longrightarrow> map_of nl' n = map_of nl n"
    using IH_last by (simp add: map_of_dict_set)
  have all: "\<forall>(n, key) \<in> set (cur # rest).
      \<exists>i < length defs'. map_of nl' n = Some (int i) \<and> K (defs' ! i) = K key"
  proof (clarify)
    fix n key assume m: "(n, key) \<in> set (cur # rest)"
    show "\<exists>i < length defs'. map_of nl' n = Some (int i) \<and> K (defs' ! i) = K key"
    proof (cases "(n, key) = cur")
      case True
      then show ?thesis using cur_ok by auto
    next
      case False
      then have "(n, key) \<in> set rest" using m by simp
      then show ?thesis using IH_mid by fast
    qed
  qed
  show ?case using pre all others by (intro conjI)
qed

lemma assign_loop_keyed_defs:
  fixes K :: "'k \<Rightarrow> 'o :: linorder"
  assumes "assign_loop ne ids prev nxt nl defs = Inr (nl', defs')"
    and "\<forall>a \<in> S. \<forall>b \<in> S. ne a b = Inr (K a \<noteq> K b)"
    and "snd ` set ids \<subseteq> S" and "\<forall>p. prev = Some p \<longrightarrow> p \<in> S"
    and "sorted (map (\<lambda>x. K (snd x)) ids)"
    and "sorted_wrt (<) (map K defs)"
    and "\<forall>p. prev = Some p \<longrightarrow> defs \<noteq> [] \<and> K (last defs) = K p"
    and "prev = None \<longrightarrow> defs = []"
    and "\<forall>p. prev = Some p \<longrightarrow> (\<forall>k \<in> snd ` set ids. K p \<le> K k)"
    and "\<forall>p. prev = Some p \<longrightarrow> (\<forall>x \<in> set defs. K x \<le> K p)"
  shows "sorted_wrt (<) (map K defs') \<and> K ` set defs' = K ` set defs \<union> K ` snd ` set ids
     \<and> set defs' \<subseteq> set defs \<union> snd ` set ids"
  using assms(1,3,4,5,6,7,8,9,10)
proof (induction ids arbitrary: prev nxt nl defs)
  case Nil
  then show ?case by simp
next
  case (Cons cur rest)
  have cs: "snd cur \<in> S" using Cons.prems(2) by simp
  define ch where "ch = (case prev of None \<Rightarrow> True | Some p \<Rightarrow> K p \<noteq> K (snd cur))"
  define nxt2 where "nxt2 = (if ch then nxt + 1 else nxt)"
  define defs2 where "defs2 = (if ch then defs @ [snd cur] else defs)"
  have chk: "(case prev of None \<Rightarrow> Inr True | Some p \<Rightarrow> ne p (snd cur)) = Inr ch"
    using assms(2) Cons.prems(3) cs by (cases prev) (auto simp: ch_def)
  have run: "assign_loop ne rest (Some (snd cur)) nxt2 (dict_set nl (fst cur) nxt2) defs2
      = Inr (nl', defs')"
    using Cons.prems(1) by (simp add: chk nxt2_def defs2_def Let_def)
  have srt: "sorted (map (\<lambda>x. K (snd x)) rest)"
    and le: "\<forall>k \<in> snd ` set rest. K (snd cur) \<le> K k"
    using Cons.prems(4) by auto
  have last2: "defs2 \<noteq> [] \<and> K (last defs2) = K (snd cur)"
  proof (cases ch)
    case True
    then show ?thesis by (simp add: defs2_def)
  next
    case False
    then obtain p where "prev = Some p" "K p = K (snd cur)" by (cases prev) (auto simp: ch_def)
    then show ?thesis using Cons.prems(6) False by (simp add: defs2_def)
  qed
  have set2: "K ` set defs2 = K ` set defs \<union> {K (snd cur)}"
  proof (cases ch)
    case True
    then show ?thesis by (auto simp: defs2_def)
  next
    case False
    then obtain p where p: "prev = Some p" "K p = K (snd cur)"
      by (cases prev) (auto simp: ch_def)
    then have "defs \<noteq> []" "K (last defs) = K (snd cur)" using Cons.prems(6) by auto
    then have "K (snd cur) \<in> K ` set defs" by (metis imageI last_in_set)
    then show ?thesis using False by (auto simp: defs2_def)
  qed
  have sub2: "set defs2 \<subseteq> set defs \<union> {snd cur}" by (auto simp: defs2_def)
  have sw2: "sorted_wrt (<) (map K defs2)"
  proof (cases ch)
    case False
    then show ?thesis using Cons.prems(5) by (simp add: defs2_def)
  next
    case True
    show ?thesis
    proof (cases prev)
      case None
      then show ?thesis using Cons.prems(7) True by (simp add: defs2_def)
    next
      case (Some p)
      then have pl: "K p \<le> K (snd cur)" "K p \<noteq> K (snd cur)"
        using Cons.prems(8) True by (auto simp: ch_def)
      have "\<forall>x \<in> set defs. K x \<le> K p" using Cons.prems(9) Some by simp
      then have "\<forall>x \<in> set defs. K x < K (snd cur)" using pl by fastforce
      then show ?thesis using Cons.prems(5) True by (simp add: defs2_def sorted_wrt_append)
    qed
  qed
  have up2: "\<forall>x \<in> set defs2. K x \<le> K (snd cur)"
  proof (cases prev)
    case None
    then show ?thesis using Cons.prems(7) by (auto simp: defs2_def)
  next
    case (Some p)
    then have "K p \<le> K (snd cur)" "\<forall>x \<in> set defs. K x \<le> K p"
      using Cons.prems(8,9) by auto
    then have "\<forall>x \<in> set defs. K x \<le> K (snd cur)" by fastforce
    then show ?thesis by (auto simp: defs2_def)
  qed
  have IH: "sorted_wrt (<) (map K defs') \<and> K ` set defs' = K ` set defs2 \<union> K ` snd ` set rest
     \<and> set defs' \<subseteq> set defs2 \<union> snd ` set rest"
    by (rule Cons.IH[OF run _ _ srt sw2]) (use last2 le up2 Cons.prems(2) cs in auto)
  have A: "sorted_wrt (<) (map K defs')" using IH by simp
  have B: "K ` set defs' = K ` set defs \<union> K ` snd ` set (cur # rest)"
    using conjunct1[OF conjunct2[OF IH]] set2 by auto
  have C: "set defs' \<subseteq> set defs \<union> snd ` set (cur # rest)"
    using conjunct2[OF conjunct2[OF IH]] sub2 by auto
  show ?case using A B C by (intro conjI)
qed


lemma assign_keyed_summary:
  fixes K :: "'k \<Rightarrow> 'o :: linorder"
  assumes asg: "assign_new_labels_for_sorted_ids ne ids = Inr (new_labels, defs)"
    and ne: "\<forall>a \<in> S. \<forall>b \<in> S. ne a b = Inr (K a \<noteq> K b)"
    and S: "snd ` set ids \<subseteq> S"
    and srt: "sorted (map (\<lambda>x. K (snd x)) ids)"
    and dst: "distinct (map fst ids)"
  shows "sorted_wrt (<) (map K defs)"
    and "K ` set defs = K ` snd ` set ids"
    and "set defs \<subseteq> snd ` set ids"
    and "\<forall>(n, key) \<in> set ids. \<exists>i < length defs. map_of new_labels n = Some (int i)
            \<and> K (defs ! i) = K key"
    and "ran (map_of new_labels) = int ` {..<length defs}"
    and "\<forall>(n, key) \<in> set ids. \<forall>(n', key') \<in> set ids.
          map_of new_labels n = map_of new_labels n' \<longleftrightarrow> K key = K key'"
    and "length defs \<le> length ids"
    and "dom (map_of new_labels) = fst ` set ids"
proof -
  have run: "assign_loop ne ids None (- 1) [] [] = Inr (new_labels, defs)"
    using asg by (simp add: assign_new_labels_for_sorted_ids_def)
  have L: "(\<exists>suffix. defs = [] @ suffix)
     \<and> (\<forall>(n, key) \<in> set ids. \<exists>i < length defs. map_of new_labels n = Some (int i)
            \<and> K (defs ! i) = K key)
     \<and> (\<forall>n. n \<notin> fst ` set ids \<longrightarrow> map_of new_labels n = map_of [] n)"
    by (rule assign_loop_keyed_labels[OF run ne S _ _ _ dst]) auto
  show lab: "\<forall>(n, key) \<in> set ids. \<exists>i < length defs. map_of new_labels n = Some (int i)
            \<and> K (defs ! i) = K key"
    by (rule conjunct1[OF conjunct2[OF L]])
  have D: "sorted_wrt (<) (map K defs) \<and> K ` set defs = K ` set [] \<union> K ` snd ` set ids
     \<and> set defs \<subseteq> set [] \<union> snd ` set ids"
    by (rule assign_loop_keyed_defs[OF run ne S _ srt]) auto
  show sw: "sorted_wrt (<) (map K defs)" using D by simp
  show sd: "K ` set defs = K ` snd ` set ids" using D by simp
  show sub: "set defs \<subseteq> snd ` set ids" using D by simp
  have dk: "distinct (map K defs)" using sw by (simp add: strict_sorted_iff)
  have inj: "\<And>i j. i < length defs \<Longrightarrow> j < length defs \<Longrightarrow> K (defs ! i) = K (defs ! j) \<Longrightarrow> i = j"
  proof -
    fix i j assume a: "i < length defs" "j < length defs" "K (defs ! i) = K (defs ! j)"
    have "(map K defs ! i = map K defs ! j) = (i = j)"
      by (rule nth_eq_iff_index_eq[OF dk]) (use a in simp_all)
    then show "i = j" using a by simp
  qed
  show dom: "dom (map_of new_labels) = fst ` set ids" using assign_loop_dom[OF run] by simp
  show "\<forall>(n, key) \<in> set ids. \<forall>(n', key') \<in> set ids.
          map_of new_labels n = map_of new_labels n' \<longleftrightarrow> K key = K key'"
  proof (clarify)
    fix n key n' key' assume a: "(n, key) \<in> set ids" "(n', key') \<in> set ids"
    obtain i where i: "i < length defs" "map_of new_labels n = Some (int i)"
      "K (defs ! i) = K key"
      using lab a(1) by fast
    obtain j where j: "j < length defs" "map_of new_labels n' = Some (int j)"
      "K (defs ! j) = K key'"
      using lab a(2) by fast
    have "i = j \<longleftrightarrow> K key = K key'" using inj[OF i(1) j(1)] i(3) j(3) by auto
    then show "map_of new_labels n = map_of new_labels n' \<longleftrightarrow> K key = K key'"
      using i j by simp
  qed
  show "ran (map_of new_labels) = int ` {..<length defs}"
  proof (intro equalityI subsetI)
    fix v assume "v \<in> ran (map_of new_labels)"
    then obtain n where n: "map_of new_labels n = Some v" by (auto simp: ran_def)
    then have "n \<in> fst ` set ids" using dom by auto
    then obtain key where "(n, key) \<in> set ids" by auto
    then obtain i where "i < length defs" "map_of new_labels n = Some (int i)" using lab by fast
    then show "v \<in> int ` {..<length defs}" using n by auto
  next
    fix v assume "v \<in> int ` {..<length defs}"
    then obtain i where i: "i < length defs" "v = int i" by auto
    then have "K (defs ! i) \<in> K ` snd ` set ids" using sd by (metis imageI nth_mem)
    then obtain n key where nk: "(n, key) \<in> set ids" "K key = K (defs ! i)" by force
    then obtain j where j: "j < length defs" "map_of new_labels n = Some (int j)"
      "K (defs ! j) = K key"
      using lab by fast
    then have "j = i" using inj[OF j(1) i(1)] nk(2) by simp
    then show "v \<in> ran (map_of new_labels)" using j i by (auto simp: ran_def)
  qed
  have "length defs = card (set (map K defs))" using dk by (metis distinct_card length_map)
  also have "\<dots> = card (K ` snd ` set ids)" using sd by simp
  also have "\<dots> \<le> card (set ids)" by (metis card_image_le List.finite_set finite_imageI le_trans)
  also have "\<dots> \<le> length ids" by (rule card_length)
  finally show "length defs \<le> length ids" .
qed

lemma insert_sorted_keyed:
  fixes K :: "'k \<Rightarrow> 'o :: linorder"
  assumes lt: "\<forall>a \<in> S. \<forall>b \<in> S. lt a b = Inr (K a < K b)"
    and "snd x \<in> S" and "snd ` set ys \<subseteq> S"
    and "sorted (map (\<lambda>x. K (snd x)) ys)"
    and "insert_sorted lt x ys = Inr zs"
  shows "sorted (map (\<lambda>x. K (snd x)) zs)"
  using assms(3,4,5)
proof (induction ys arbitrary: zs)
  case Nil
  then show ?case by auto
next
  case (Cons y ys)
  have b: "lt (snd x) (snd y) = Inr (K (snd x) < K (snd y))"
    using lt assms(2) Cons.prems(1) by simp
  show ?case
  proof (cases "K (snd x) < K (snd y)")
    case True
    then have "zs = x # y # ys" using Cons.prems(3) b by simp
    then show ?thesis using Cons.prems(2) True by fastforce
  next
    case False
    then obtain zs' where z: "insert_sorted lt x ys = Inr zs'" "zs = y # zs'"
      using Cons.prems(3) b by (cases "insert_sorted lt x ys") auto
    have s': "sorted (map (\<lambda>x. K (snd x)) zs')"
      by (rule Cons.IH[OF _ _ z(1)]) (use Cons.prems in auto)
    have "set zs' = insert x (set ys)" by (rule insert_sorted_set[OF z(1)])
    then have "\<forall>w \<in> set zs'. K (snd y) \<le> K (snd w)"
      using False Cons.prems(2) by auto
    then show ?thesis using s' z(2) by simp
  qed
qed

lemma sort_ids_keyed:
  fixes K :: "'k \<Rightarrow> 'o :: linorder"
  assumes lt: "\<forall>a \<in> S. \<forall>b \<in> S. lt a b = Inr (K a < K b)"
    and "snd ` set xs \<subseteq> S" and "snd ` set acc \<subseteq> S"
    and "sorted (map (\<lambda>x. K (snd x)) acc)"
    and "sort_ids lt xs acc = Inr zs"
  shows "sorted (map (\<lambda>x. K (snd x)) zs)"
  using assms(2,3,4,5)
proof (induction xs arbitrary: acc zs)
  case Nil
  then show ?case by auto
next
  case (Cons x xs)
  obtain acc' where a: "insert_sorted lt x acc = Inr acc'" "sort_ids lt xs acc' = Inr zs"
    using Cons.prems(4) by (cases "insert_sorted lt x acc") auto
  have s: "sorted (map (\<lambda>x. K (snd x)) acc')"
    by (rule insert_sorted_keyed[OF lt _ Cons.prems(2,3) a(1)]) (use Cons.prems(1) in auto)
  have "set acc' = insert x (set acc)" by (rule insert_sorted_set[OF a(1)])
  then have sub: "snd ` set acc' \<subseteq> S" using Cons.prems(1,2) by auto
  show ?case by (rule Cons.IH[OF _ sub s a(2)]) (use Cons.prems(1) in auto)
qed


lemma coarser_card_le:
  assumes "finite S" and "\<forall>a \<in> S. \<forall>b \<in> S. f a = f b \<longrightarrow> g a = g b"
  shows "card (g ` S) \<le> card (f ` S)"
proof -
  define h where "h = (\<lambda>y. g (SOME a. a \<in> S \<and> f a = y))"
  have hf: "h (f x) = g x" if x: "x \<in> S" for x
  proof -
    define a where "a = (SOME a. a \<in> S \<and> f a = f x)"
    have "a \<in> S \<and> f a = f x"
      unfolding a_def by (rule someI[of "\<lambda>a. a \<in> S \<and> f a = f x" x]) (use x in simp)
    then have "g a = g x" using assms(2) x by blast
    then show ?thesis unfolding h_def a_def .
  qed
  have "(\<lambda>x. h (f x)) ` S = g ` S" by (rule image_cong) (use hf in auto)
  then have "g ` S = h ` (f ` S)" by (simp only: image_image)
  then show ?thesis using assms(1) by (simp only: card_image_le finite_imageI)
qed

lemma same_partition_card:
  assumes "finite S" and "\<forall>a \<in> S. \<forall>b \<in> S. f a = f b \<longleftrightarrow> g a = g b"
  shows "card (f ` S) = card (g ` S)"
proof -
  have "card (g ` S) \<le> card (f ` S)" by (rule coarser_card_le[OF assms(1)]) (use assms(2) in simp)
  moreover have "card (f ` S) \<le> card (g ` S)"
    by (rule coarser_card_le[OF assms(1)]) (use assms(2) in simp)
  ultimately show ?thesis by simp
qed

lemma effectively_the_same_partition:
  assumes "\<forall>n \<in> set ns. map_of labels n \<noteq> None \<and> map_of new_labels n \<noteq> None"
    and "are_new_labels_effectively_the_same ns labels new_labels = Inr True"
  shows "\<forall>a \<in> set ns. \<forall>b \<in> set ns.
           map_of labels a = map_of labels b \<longleftrightarrow> map_of new_labels a = map_of new_labels b"
proof -
  have "same_loop ns labels new_labels [] [] =
         Inr (\<forall>n \<in> set ns. find (\<lambda>m. map_of labels m = map_of labels n) ([] @ ns) =
                            find (\<lambda>m. map_of new_labels m = map_of new_labels n) ([] @ ns))"
    by (rule same_loop_char) (use assms(1) in auto)
  then have "\<forall>n \<in> set ns. find (\<lambda>m. map_of labels m = map_of labels n) ns =
                            find (\<lambda>m. map_of new_labels m = map_of new_labels n) ns"
    using assms(2) by (simp add: are_new_labels_effectively_the_same_def)
  then show ?thesis
    using find_partition_iff[of ns "map_of labels" "map_of new_labels"] by simp
qed

lemma ran_card_image:
  assumes "dom m = S" and "finite S"
  shows "card (m ` S) = card (ran m)"
proof -
  have "m ` S = Some ` ran m" using assms(1) by (force simp: ran_def dom_def image_iff)
  then show ?thesis by (simp add: card_image)
qed

lemma plain_round_defs_card:
  assumes d: "distinct ns"
    and ids: "get_new_ids_in_order_plain G ns labels = Inr ids"
    and asg: "assign_new_labels_for_sorted_ids ne_plain ids = Inr (new_labels, defs)"
  shows "length defs = card (map_of new_labels ` set ns)"
proof -
  have ne: "\<forall>a \<in> UNIV. \<forall>b \<in> UNIV. ne_plain a b = Inr ((\<lambda>x. x) a \<noteq> (\<lambda>x. x) b)"
    by (simp add: ne_plain_def)
  have srt: "sorted (map (\<lambda>x. (\<lambda>x. x) (snd x)) ids)"
    using get_new_ids_in_order_plain_sorted(1)[OF ids] by simp
  have dst: "distinct (map fst ids)" using get_new_ids_in_order_plain_sorted(3)[OF ids d] .
  have fs: "fst ` set ids = set ns" using get_new_ids_in_order_plain_props(1)[OF ids] .
  have ran: "ran (map_of new_labels) = int ` {..<length defs}"
    by (rule assign_keyed_summary(5)[OF asg ne _ srt dst]) simp
  have dom: "dom (map_of new_labels) = set ns"
    using assign_keyed_summary(8)[OF asg ne _ srt dst] fs by simp
  have "card (map_of new_labels ` set ns) = card (ran (map_of new_labels))"
    by (rule ran_card_image[OF dom]) simp
  also have "\<dots> = length defs" unfolding ran by (simp add: card_image)
  finally show ?thesis by simp
qed

lemma refine_plain_defs_length:
  "distinct ns \<Longrightarrow> refine_plain G ns labels c = Inr (final, defs, c') \<Longrightarrow>
     (\<forall>n \<in> set ns. map_of final n \<noteq> None) \<and> length defs = card (map_of final ` set ns)"
proof (induction G ns labels c rule: refine_plain.induct)
  case (1 G ns labels counter)
  note d = "1.prems"(1) and res = "1.prems"(2)
  obtain ids where ids: "get_new_ids_in_order_plain G ns labels = Inr ids"
    using res by (subst (asm) refine_plain.simps) (auto split: sum.splits)
  obtain new_labels defs0 where asg:
    "assign_new_labels_for_sorted_ids ne_plain ids = Inr (new_labels, defs0)"
    using res ids by (subst (asm) refine_plain.simps) (auto split: sum.splits)
  obtain same where same: "are_new_labels_effectively_the_same ns labels new_labels = Inr same"
    using res ids asg by (subst (asm) refine_plain.simps) (auto split: sum.splits)
  show ?case
  proof (cases same)
    case True
    then have fin: "final = labels" "defs = defs0"
      using res ids asg same by (subst (asm) refine_plain.simps, simp)+
    have old: "\<forall>n \<in> set ns. map_of labels n \<noteq> None"
    proof
      fix n assume "n \<in> set ns"
      then have "n \<in> fst ` set ids" using get_new_ids_in_order_plain_props(1)[OF ids] by simp
      then obtain k where "(n, k) \<in> set ids" by auto
      then show "map_of labels n \<noteq> None"
        using get_new_ids_in_order_plain_props(2)[OF ids] by auto
    qed
    have run: "assign_loop ne_plain ids None (- 1) [] [] = Inr (new_labels, defs0)"
      using asg by (simp add: assign_new_labels_for_sorted_ids_def)
    have "dom (map_of new_labels) = set ns"
      using assign_loop_dom[OF run] get_new_ids_in_order_plain_props(1)[OF ids] by simp
    then have new: "\<forall>n \<in> set ns. map_of new_labels n \<noteq> None" by auto
    have both: "\<forall>n \<in> set ns. map_of labels n \<noteq> None \<and> map_of new_labels n \<noteq> None"
      using old new by simp
    have st: "are_new_labels_effectively_the_same ns labels new_labels = Inr True"
      using same True by simp
    have part: "\<forall>a \<in> set ns. \<forall>b \<in> set ns.
           map_of labels a = map_of labels b \<longleftrightarrow> map_of new_labels a = map_of new_labels b"
      by (rule effectively_the_same_partition[OF both st])
    have "card (map_of labels ` set ns) = card (map_of new_labels ` set ns)"
      by (rule same_partition_card[OF _ part]) simp
    also have "\<dots> = length defs0" using plain_round_defs_card[OF d ids asg] by simp
    finally show ?thesis using old fin by simp
  next
    case False
    then have rec: "refine_plain G ns new_labels (counter + 1) = Inr (final, defs, c')"
      using res ids asg same by (subst (asm) refine_plain.simps) simp
    show ?thesis using "1.IH"[OF ids _ _ same _ d rec] asg False by simp
  qed
qed


lemma compute_label_pairings_fst:
  assumes "compute_label_pairings labels ext ns = Inr ps"
  shows "fst ` set ps = (\<lambda>n. the (map_of labels n)) ` set ns"
proof -
  define g where "g = (\<lambda>n. case dict_get labels n of
                           Inl e \<Rightarrow> Inl e
                         | Inr i \<Rightarrow> (case dict_get ext n of
                                      Inl e \<Rightarrow> Inl e | Inr x \<Rightarrow> Inr (i, x)))"
  obtain raw where raw: "map_err g ns = Inr raw" and ps: "ps = sort raw"
    using assms by (auto simp: compute_label_pairings_def g_def split: sum.splits)
  have l2: "list_all2 (\<lambda>x y. g x = Inr y) ns raw" using raw by (simp add: map_err_Inr)
  have "map fst raw = map (\<lambda>n. the (map_of labels n)) ns"
    using l2
    by (induction ns raw rule: list_all2_induct)
       (auto simp: g_def dict_get_def split: option.splits sum.splits)
  then have "fst ` set raw = (\<lambda>n. the (map_of labels n)) ` set ns" by (metis set_map)
  then show ?thesis using ps by simp
qed

lemma init_plain_consistent:
  assumes d: "distinct (nodes G)" and i: "init_plain G ext = Inr sub"
  shows "consistent_plain sub"
proof -
  define el where "el = default_labels G ext"
  obtain labels where l: "labels_of_nodes el (nodes G) = Inr labels"
    using i by (cases "labels_of_nodes el (nodes G)") (auto simp: init_plain_def el_def Let_def)
  obtain H where h: "compute_higher_than_any_internal_label (nodes G) labels = Inr H"
    using i l by (cases "compute_higher_than_any_internal_label (nodes G) labels")
                 (auto simp: init_plain_def el_def Let_def)
  obtain r where r: "refine_plain G (nodes G) labels 0 = Inr r"
    using i l h by (cases "refine_plain G (nodes G) labels 0")
                   (auto simp: init_plain_def el_def Let_def)
  obtain fl defs c where rr: "r = (fl, defs, c)" by (cases r)
  obtain ps where p: "compute_label_pairings fl el (nodes G) = Inr ps"
    using i l h r rr by (cases "compute_label_pairings fl el (nodes G)")
                        (auto simp: init_plain_def el_def Let_def)
  have sub: "self_label_pairings sub = Some ps" "self_label_definitions sub = defs"
    using i l h r rr p by (auto simp: init_plain_def el_def Let_def)
  have R: "(\<forall>n \<in> set (nodes G). map_of fl n \<noteq> None)
      \<and> length defs = card (map_of fl ` set (nodes G))"
    by (rule refine_plain_defs_length[OF d]) (use r rr in simp)
  have "map_of fl ` set (nodes G) = Some ` (\<lambda>n. the (map_of fl n)) ` set (nodes G)"
    using conjunct1[OF R] by (force simp: image_iff)
  then have "card (map_of fl ` set (nodes G)) = card ((\<lambda>n. the (map_of fl n)) ` set (nodes G))"
    by (simp add: card_image)
  then have "length defs = card (fst ` set ps)"
    using conjunct2[OF R] compute_label_pairings_fst[OF p] by simp
  then show ?thesis using sub by (simp add: consistent_plain_def)
qed

lemma nodewise_ids_consistent:
  assumes d: "distinct (nodes G)"
  shows "nodewise_ids G ns H labels rest ov = Inr (ids, ov') \<Longrightarrow>
     \<forall>(n, k) \<in> set ids. consistent_plain (snd k)"
proof (induction rest arbitrary: ov ids ov')
  case Nil
  then show ?case by auto
next
  case (Cons node rest)
  obtain overlay where o: "dict_get ov node = Inr overlay"
    using Cons.prems by (cases "dict_get ov node") auto
  obtain new_labels where n: "overlay_labels overlay H labels ns = Inr new_labels"
    using Cons.prems o by (cases "overlay_labels overlay H labels ns") auto
  obtain l where l: "dict_get labels node = Inr l"
    using Cons.prems o n by (cases "dict_get labels node") auto
  obtain sub where s: "init_plain G (Some new_labels) = Inr sub"
    using Cons.prems o n l by (cases "init_plain G (Some new_labels)") auto
  obtain r where r: "nodewise_ids G ns H labels rest (dict_set ov node (self_internal_labels sub)) = Inr r"
    using Cons.prems o n l s
    by (cases "nodewise_ids G ns H labels rest (dict_set ov node (self_internal_labels sub))") auto
  obtain ids0 ov0 where r0: "r = (ids0, ov0)" by (cases r)
  have ids: "ids = (node, (l, sub)) # ids0"
    using Cons.prems o n l s r r0 by auto
  have rec: "nodewise_ids G ns H labels rest (dict_set ov node (self_internal_labels sub)) = Inr (ids0, ov0)"
    using r r0 by simp
  have "consistent_plain sub" by (rule init_plain_consistent[OF d s])
  then show ?case using Cons.IH[OF rec] ids by auto
qed

lemma get_new_ids_in_order_nodewise_sorted:
  assumes d: "distinct (nodes G)"
    and g: "get_new_ids_in_order_nodewise G ns H labels ov = Inr (ids, ov')"
  shows "\<forall>(n, k) \<in> set ids. consistent_plain (snd k)"
    and "sorted (map (\<lambda>x. nodewise_sort_key (snd x)) ids)"
    and "distinct ns \<Longrightarrow> distinct (map fst ids)"
proof -
  obtain raw where raw: "nodewise_ids G ns H labels ns ov = Inr (raw, ov')"
    and s: "sort_ids key_lt raw [] = Inr ids"
    using g by (auto simp: get_new_ids_in_order_nodewise_def split: sum.splits prod.splits)
  have set: "set ids = set raw" using sort_ids_set[OF s] by simp
  have c: "\<forall>(n, k) \<in> set raw. consistent_plain (snd k)"
    by (rule nodewise_ids_consistent[OF d raw])
  show "\<forall>(n, k) \<in> set ids. consistent_plain (snd k)" using c set by simp
  have lt: "\<forall>a \<in> {k. consistent_plain (snd k)}. \<forall>b \<in> {k. consistent_plain (snd k)}.
      key_lt a b = Inr (nodewise_sort_key a < nodewise_sort_key b)"
    using key_lt_lex by simp
  show "sorted (map (\<lambda>x. nodewise_sort_key (snd x)) ids)"
    by (rule sort_ids_keyed[OF lt _ _ _ s]) (use c in auto)
  assume dn: "distinct ns"
  have "set (map fst ids) = set ns" using nodewise_ids_props[OF raw] set by (metis set_map)
  moreover have "length (map fst ids) = length ns"
    using get_new_ids_in_order_nodewise_length[OF g] by simp
  ultimately have "card (set (map fst ids)) = length (map fst ids)"
    using dn by (simp add: distinct_card)
  then show "distinct (map fst ids)" by (rule card_distinct)
qed


lemma assign_new_labels_nodewise_round:
  assumes dn: "distinct ns" and dg: "distinct (nodes G)"
    and g: "get_new_ids_in_order_nodewise G ns H labels ov = Inr (ids, ov')"
  shows "case assign_new_labels_for_sorted_ids key_ne ids of
      Inl e \<Rightarrow> False
    | Inr (new_labels, defs) \<Rightarrow>
      set defs \<subseteq> snd ` set ids
    \<and> (\<forall>i j. i < j \<and> j < length defs \<longrightarrow> key_lt (defs ! i) (defs ! j) = Inr True)
    \<and> length defs \<le> length ns
    \<and> ran (map_of new_labels) = int ` {..<length defs}
    \<and> (\<forall>(n, key) \<in> set ids. \<forall>(n', key') \<in> set ids.
          map_of new_labels n = map_of new_labels n' \<longleftrightarrow> key_ne key key' = Inr False)
    \<and> (\<forall>(n, key) \<in> set ids. \<exists>i < length defs.
          map_of new_labels n = Some (int i) \<and> key_ne (defs ! i) key = Inr False)"
proof -
  define S where "S = {k :: nodewise_key. consistent_plain (snd k)}"
  have ne: "\<forall>a \<in> S. \<forall>b \<in> S. key_ne a b = Inr (nodewise_sort_key a \<noteq> nodewise_sort_key b)"
    using key_ne_lex by (simp add: S_def)
  have lt: "\<forall>a \<in> S. \<forall>b \<in> S. key_lt a b = Inr (nodewise_sort_key a < nodewise_sort_key b)"
    using key_lt_lex by (simp add: S_def)
  have sub: "snd ` set ids \<subseteq> S"
    using get_new_ids_in_order_nodewise_sorted(1)[OF dg g] by (auto simp: S_def)
  have srt: "sorted (map (\<lambda>x. nodewise_sort_key (snd x)) ids)"
    by (rule get_new_ids_in_order_nodewise_sorted(2)[OF dg g])
  have dst: "distinct (map fst ids)"
    by (rule get_new_ids_in_order_nodewise_sorted(3)[OF dg g dn])
  obtain r where "assign_loop key_ne ids None (- 1) [] [] = Inr r"
    using assign_loop_keyed_succeeds[OF ne sub, of None "- 1" "[]" "[]"] by auto
  then obtain nl defs where asg: "assign_new_labels_for_sorted_ids key_ne ids = Inr (nl, defs)"
    by (cases r) (auto simp: assign_new_labels_for_sorted_ids_def)
  note sm = assign_keyed_summary[OF asg ne sub srt dst]
  have dS: "set defs \<subseteq> S" using sm(3) sub by blast
  have A: "set defs \<subseteq> snd ` set ids" by (rule sm(3))
  have B: "\<forall>i j. i < j \<and> j < length defs \<longrightarrow> key_lt (defs ! i) (defs ! j) = Inr True"
  proof (intro allI impI, elim conjE)
    fix i j assume ij: "i < j" "j < length defs"
    have "map nodewise_sort_key defs ! i < map nodewise_sort_key defs ! j"
      by (rule sorted_wrt_nth_less[OF sm(1)]) (use ij in simp_all)
    then have "nodewise_sort_key (defs ! i) < nodewise_sort_key (defs ! j)" using ij by simp
    moreover have "defs ! i \<in> S" "defs ! j \<in> S" using dS ij by auto
    ultimately show "key_lt (defs ! i) (defs ! j) = Inr True" using lt by simp
  qed
  have C: "length defs \<le> length ns"
    using sm(7) get_new_ids_in_order_nodewise_length[OF g] by simp
  have D: "ran (map_of nl) = int ` {..<length defs}" by (rule sm(5))
  have E: "\<forall>(n, key) \<in> set ids. \<forall>(n', key') \<in> set ids.
          map_of nl n = map_of nl n' \<longleftrightarrow> key_ne key key' = Inr False"
  proof (clarify)
    fix n key n' key' assume a: "(n, key) \<in> set ids" "(n', key') \<in> set ids"
    have "key \<in> S" "key' \<in> S" using sub a by force+
    then have "key_ne key key' = Inr (nodewise_sort_key key \<noteq> nodewise_sort_key key')"
      using ne by simp
    moreover have "map_of nl n = map_of nl n' \<longleftrightarrow> nodewise_sort_key key = nodewise_sort_key key'"
      using sm(6) a by fast
    ultimately show "map_of nl n = map_of nl n' \<longleftrightarrow> key_ne key key' = Inr False" by simp
  qed
  have F: "\<forall>(n, key) \<in> set ids. \<exists>i < length defs.
          map_of nl n = Some (int i) \<and> key_ne (defs ! i) key = Inr False"
  proof (clarify)
    fix n key assume a: "(n, key) \<in> set ids"
    obtain i where i: "i < length defs" "map_of nl n = Some (int i)"
      "nodewise_sort_key (defs ! i) = nodewise_sort_key key"
      using sm(4) a by fast
    have "key \<in> S" "defs ! i \<in> S" using sub a dS i(1) by force+
    then have "key_ne (defs ! i) key = Inr False" using ne i(3) by simp
    then show "\<exists>i < length defs. map_of nl n = Some (int i) \<and> key_ne (defs ! i) key = Inr False"
      using i by blast
  qed
  show ?thesis unfolding asg sum.case prod.case using A B C D E F by (intro conjI)
qed

text \<open>
  C10. After a refinement round over distinct nodes, in plain mode and in nodewise
  mode: \<^verbatim>\<open>label_definitions\<close> has \<open>k\<close> entries, at most the node count, each the key of
  a node, in strictly ascending key order; the labels assigned are exactly
  \<open>0, ..., k - 1\<close>; two nodes get the same label exactly when their keys are equal; and
  the label of a node is the position of its key in \<^verbatim>\<open>label_definitions\<close>. In plain
  mode the keys are compared structurally; in nodewise mode equality is \<^verbatim>\<open>==\<close> and
  the order is \<^verbatim>\<open><\<close> on the tuples \<^verbatim>\<open>(label, instance)\<close>, that is \<open>key_ne\<close> and \<open>key_lt\<close>,
  and the round never raises in \<^verbatim>\<open>assign_new_labels_for_sorted_ids\<close>.
\<close>

theorem assign_new_labels_contiguous:
  assumes "distinct ns"
  shows "(\<forall>G labels ids. get_new_ids_in_order_plain G ns labels = Inr ids \<longrightarrow>
      (case assign_new_labels_for_sorted_ids ne_plain ids of
         Inl e \<Rightarrow> False
       | Inr (new_labels, defs) \<Rightarrow>
           defs = sorted_list_of_set (snd ` set ids)
         \<and> length defs \<le> length ns
         \<and> ran (map_of new_labels) = int ` {..<length defs}
         \<and> (\<forall>(n, key) \<in> set ids. \<forall>(n', key') \<in> set ids.
               map_of new_labels n = map_of new_labels n' \<longleftrightarrow> key = key')
         \<and> (\<forall>(n, key) \<in> set ids. \<exists>i < length defs.
               map_of new_labels n = Some (int i) \<and> defs ! i = key)))
   \<and> (\<forall>G H labels overlays ids overlays'.
        distinct (nodes G)
        \<and> get_new_ids_in_order_nodewise G ns H labels overlays = Inr (ids, overlays') \<longrightarrow>
      (case assign_new_labels_for_sorted_ids key_ne ids of
         Inl e \<Rightarrow> False
       | Inr (new_labels, defs) \<Rightarrow>
           set defs \<subseteq> snd ` set ids
         \<and> (\<forall>i j. i < j \<and> j < length defs \<longrightarrow> key_lt (defs ! i) (defs ! j) = Inr True)
         \<and> length defs \<le> length ns
         \<and> ran (map_of new_labels) = int ` {..<length defs}
         \<and> (\<forall>(n, key) \<in> set ids. \<forall>(n', key') \<in> set ids.
               map_of new_labels n = map_of new_labels n' \<longleftrightarrow> key_ne key key' = Inr False)
         \<and> (\<forall>(n, key) \<in> set ids. \<exists>i < length defs.
               map_of new_labels n = Some (int i) \<and> key_ne (defs ! i) key = Inr False)))"
proof (intro conjI allI impI)
  fix G labels ids
  assume g: "get_new_ids_in_order_plain G ns labels = Inr ids"
  show "case assign_new_labels_for_sorted_ids ne_plain ids of
         Inl e \<Rightarrow> False
       | Inr (new_labels, defs) \<Rightarrow>
           defs = sorted_list_of_set (snd ` set ids)
         \<and> length defs \<le> length ns
         \<and> ran (map_of new_labels) = int ` {..<length defs}
         \<and> (\<forall>(n, key) \<in> set ids. \<forall>(n', key') \<in> set ids.
               map_of new_labels n = map_of new_labels n' \<longleftrightarrow> key = key')
         \<and> (\<forall>(n, key) \<in> set ids. \<exists>i < length defs.
               map_of new_labels n = Some (int i) \<and> defs ! i = key)"
    by (rule assign_new_labels_plain_round[OF assms g])
next
  fix G H labels overlays ids overlays'
  assume a: "distinct (nodes G)
        \<and> get_new_ids_in_order_nodewise G ns H labels overlays = Inr (ids, overlays')"
  show "case assign_new_labels_for_sorted_ids key_ne ids of
         Inl e \<Rightarrow> False
       | Inr (new_labels, defs) \<Rightarrow>
           set defs \<subseteq> snd ` set ids
         \<and> (\<forall>i j. i < j \<and> j < length defs \<longrightarrow> key_lt (defs ! i) (defs ! j) = Inr True)
         \<and> length defs \<le> length ns
         \<and> ran (map_of new_labels) = int ` {..<length defs}
         \<and> (\<forall>(n, key) \<in> set ids. \<forall>(n', key') \<in> set ids.
               map_of new_labels n = map_of new_labels n' \<longleftrightarrow> key_ne key key' = Inr False)
         \<and> (\<forall>(n, key) \<in> set ids. \<exists>i < length defs.
               map_of new_labels n = Some (int i) \<and> key_ne (defs ! i) key = Inr False)"
    by (rule assign_new_labels_nodewise_round[OF assms conjunct1[OF a] conjunct2[OF a]])
qed

theorem assign_new_labels_contiguous_witness:
  "distinct [0, 1, 2 :: int]
   \<and> get_new_ids_in_order_plain path3 [0, 1, 2] [(0, 0), (1, 0), (2, 0)]
        = Inr [(0, (0, [0])), (2, (0, [0])), (1, (0, [0, 0]))]
   \<and> assign_new_labels_for_sorted_ids ne_plain [(0, (0, [0])), (2, (0, [0])), (1, (0, [0, 0]))]
        = Inr ([(0, 0), (2, 0), (1, 1)], [(0, [0]), (0, [0, 0])])
   \<and> ran (map_of [(0 :: int, 0 :: int), (2, 0), (1, 1)])
        = int ` {..<length [(0 :: int, [0 :: int]), (0, [0, 0])]}
   \<and> (case get_new_ids_in_order_nodewise path3 [0, 1, 2] 3 [(0, 0), (1, 0), (2, 0)]
              [(0, [(0, 1), (1, 0), (2, 0)]), (1, [(0, 0), (1, 1), (2, 0)]),
               (2, [(0, 0), (1, 0), (2, 1)])] of
         Inl e \<Rightarrow> None
       | Inr (ids, ovs) \<Rightarrow>
           (case assign_new_labels_for_sorted_ids key_ne ids of
              Inl e \<Rightarrow> None
            | Inr (new_labels, defs) \<Rightarrow> Some (new_labels, length defs)))
        = Some ([(1, 0), (0, 1), (2, 1)], 2)
   \<and> ran (map_of [(1 :: int, 0 :: int), (0, 1), (2, 1)]) = int ` {..<2}"
proof -
  have d: "distinct [0, 1, 2 :: int]" by simp
  note T = assign_new_labels_contiguous[OF d]
  have ids: "get_new_ids_in_order_plain path3 [0, 1, 2] [(0, 0), (1, 0), (2, 0)]
        = Inr [(0, (0, [0])), (2, (0, [0])), (1, (0, [0, 0]))]"
    by code_simp
  have asg: "assign_new_labels_for_sorted_ids ne_plain
        [(0, (0, [0])), (2, (0, [0])), (1, (0, [0, 0]))]
        = Inr ([(0, 0), (2, 0), (1, 1)], [(0, [0]), (0, [0, 0])])"
    by code_simp
  note t = conjunct1[OF T, rule_format, OF ids, unfolded asg sum.case prod.case]
  have r1: "ran (map_of [(0 :: int, 0 :: int), (2, 0), (1, 1)])
        = int ` {..<length [(0 :: int, [0 :: int]), (0, [0, 0])]}"
    by (rule conjunct1[OF conjunct2[OF conjunct2[OF t]]])
  have ev: "(case get_new_ids_in_order_nodewise path3 [0, 1, 2] 3 [(0, 0), (1, 0), (2, 0)]
              [(0, [(0, 1), (1, 0), (2, 0)]), (1, [(0, 0), (1, 1), (2, 0)]),
               (2, [(0, 0), (1, 0), (2, 1)])] of
         Inl e \<Rightarrow> None
       | Inr (ids, ovs) \<Rightarrow>
           (case assign_new_labels_for_sorted_ids key_ne ids of
              Inl e \<Rightarrow> None
            | Inr (new_labels, defs) \<Rightarrow> Some (new_labels, length defs)))
        = Some ([(1, 0), (0, 1), (2, 1)], 2)"
    by code_simp
  then obtain nids ovs defs where
    g: "get_new_ids_in_order_nodewise path3 [0, 1, 2] 3 [(0, 0), (1, 0), (2, 0)]
              [(0, [(0, 1), (1, 0), (2, 0)]), (1, [(0, 0), (1, 1), (2, 0)]),
               (2, [(0, 0), (1, 0), (2, 1)])] = Inr (nids, ovs)"
    and a: "assign_new_labels_for_sorted_ids key_ne nids = Inr ([(1, 0), (0, 1), (2, 1)], defs)"
    and l: "length defs = 2"
    by (auto split: sum.splits prod.splits)
  have dg: "distinct (nodes path3)" by (simp add: path3_def)
  note u = conjunct2[OF T, rule_format, OF conjI[OF dg g], unfolded a sum.case prod.case]
  have r2: "ran (map_of [(1 :: int, 0 :: int), (0, 1), (2, 1)]) = int ` {..<2}"
    using conjunct1[OF conjunct2[OF conjunct2[OF conjunct2[OF u]]]] l by simp
  show ?thesis using d ids asg r1 ev r2 by (intro conjI)
qed

section \<open>Properties of graph expansion\<close>

lemma add_node_simps:
  "set (nodes (add_node G n)) = insert n (set (nodes G))" "edges (add_node G n) = edges G"
  by (auto simp: add_node_def)

lemma has_edge_add_node: "has_edge (add_node G n) u v = has_edge G u v"
  by (simp add: has_edge_def add_node_simps)

lemma add_edge_nodes: "set (nodes (add_edge G u v)) = insert u (insert v (set (nodes G)))"
  by (auto simp: add_edge_def Let_def add_node_simps)

lemma add_edge_edges:
  "set (edges (add_edge G u v)) =
     (if has_edge G u v then set (edges G) else insert (u, v) (set (edges G)))"
  by (simp add: add_edge_def Let_def add_node_simps has_edge_add_node)

lemma expand_nodes_result:
  assumes "\<forall>n \<in> set ns. map_of L n \<noteq> None"
  shows "\<exists>G1 L1. expand_nodes ns L (G0, L0) = Inr (G1, L1)
     \<and> set (nodes G1) = set (nodes G0) \<union> set ns \<and> edges G1 = edges G0
     \<and> (\<forall>n. map_of L1 n = (if n \<in> set ns then map_of L n else map_of L0 n))"
  using assms
proof (induction ns arbitrary: G0 L0)
  case Nil
  then show ?case by simp
next
  case (Cons node ns)
  obtain l where l: "map_of L node = Some l" using Cons.prems by auto
  have rest: "\<forall>n \<in> set ns. map_of L n \<noteq> None" using Cons.prems by simp
  obtain G1 L1 where r: "expand_nodes ns L (add_node G0 node, dict_set L0 node l) = Inr (G1, L1)"
    and n1: "set (nodes G1) = set (nodes (add_node G0 node)) \<union> set ns"
    and e1: "edges G1 = edges (add_node G0 node)"
    and m1: "\<forall>n. map_of L1 n = (if n \<in> set ns then map_of L n
                 else map_of (dict_set L0 node l) n)"
    using Cons.IH[OF rest, of "add_node G0 node" "dict_set L0 node l"] by blast
  have step: "expand_nodes (node # ns) L (G0, L0) = Inr (G1, L1)"
    using l r by (simp add: dict_get_def)
  have "set (nodes G1) = set (nodes G0) \<union> set (node # ns)"
    using n1 by (simp add: add_node_simps)
  moreover have "edges G1 = edges G0" using e1 by (simp add: add_node_simps)
  moreover have "\<forall>n. map_of L1 n = (if n \<in> set (node # ns) then map_of L n else map_of L0 n)"
    using m1 l by (simp add: map_of_dict_set)
  ultimately show ?case using step by (intro exI conjI)
qed


lemma expand_edges_result:
  assumes "expand_edges es lab nx (G1, L1) = (G2, L2)"
    and "\<forall>e \<in> set es. fst e \<le> nx \<and> snd e \<le> nx"
    and "\<forall>e \<in> set (edges G1). fst e \<le> nx \<and> snd e \<le> nx"
  shows "set (edges G2) = set (edges G1)
            \<union> set (zip (map fst es) [nx + 1..nx + int (length es)])
            \<union> set (zip (map snd es) [nx + 1..nx + int (length es)])
       \<and> set (nodes G2) = set (nodes G1) \<union> fst ` set es \<union> snd ` set es
            \<union> {nx + 1..nx + int (length es)}
       \<and> (\<forall>n. map_of L2 n = (if nx < n \<and> n \<le> nx + int (length es) then Some lab
                               else map_of L1 n))"
  using assms
proof (induction es arbitrary: nx G1 L1)
  case Nil
  then show ?case by auto
next
  case (Cons edge es)
  define w where "w = nx + 1"
  define Ga where "Ga = add_node G1 w"
  define Gb where "Gb = add_edge Ga (fst edge) w"
  define Gc where "Gc = add_edge Gb (snd edge) w"
  define Lc where "Lc = dict_set L1 w lab"
  have run: "expand_edges es lab w (Gc, Lc) = (G2, L2)"
    using Cons.prems(1) by (simp add: Let_def w_def Ga_def Gb_def Gc_def Lc_def)
  have le: "fst edge \<le> nx" "snd edge \<le> nx" using Cons.prems(2) by auto
  have fresh: "\<forall>e \<in> set (edges G1). fst e \<noteq> w \<and> snd e \<noteq> w"
    using Cons.prems(3) by (auto simp: w_def)
  have no1: "\<not> has_edge Ga (fst edge) w"
    using fresh by (auto simp: has_edge_def Ga_def add_node_simps)
  have eb: "set (edges Gb) = insert (fst edge, w) (set (edges G1))"
    using no1 by (simp add: Gb_def add_edge_edges) (simp add: Ga_def add_node_simps)
  have ec: "set (edges Gc) = insert (snd edge, w) (insert (fst edge, w) (set (edges G1)))"
  proof (cases "has_edge Gb (snd edge) w")
    case True
    then have "(snd edge, w) \<in> set (edges Gb) \<or> (w, snd edge) \<in> set (edges Gb)"
      by (auto simp: has_edge_def)
    then have "snd edge = fst edge" using eb fresh le by (auto simp: w_def)
    then show ?thesis using True eb by (auto simp: Gc_def add_edge_edges)
  next
    case False
    then show ?thesis using eb by (simp add: Gc_def add_edge_edges)
  qed
  have nc: "set (nodes Gc) = insert w (insert (fst edge) (insert (snd edge) (set (nodes G1))))"
    by (auto simp: Gc_def Gb_def Ga_def add_edge_nodes add_node_simps)
  have p2: "\<forall>e \<in> set es. fst e \<le> w \<and> snd e \<le> w"
    using Cons.prems(2) by (auto simp: w_def)
  have p3: "\<forall>e \<in> set (edges Gc). fst e \<le> w \<and> snd e \<le> w"
    using Cons.prems(3) le ec by (auto simp: w_def)
  note IH = Cons.IH[OF run p2 p3]
  have up: "[nx + 1..nx + int (length (edge # es))] = w # [w + 1..w + int (length es)]"
    by (subst upto_rec1) (auto simp: w_def algebra_simps)
  have E: "set (edges G2) = set (edges G1)
            \<union> set (zip (map fst (edge # es)) [nx + 1..nx + int (length (edge # es))])
            \<union> set (zip (map snd (edge # es)) [nx + 1..nx + int (length (edge # es))])"
    unfolding up using conjunct1[OF IH] ec by auto
  have N: "set (nodes G2) = set (nodes G1) \<union> fst ` set (edge # es) \<union> snd ` set (edge # es)
            \<union> {nx + 1..nx + int (length (edge # es))}"
    using conjunct1[OF conjunct2[OF IH]] nc by (auto simp: w_def)
  have M: "\<forall>n. map_of L2 n = (if nx < n \<and> n \<le> nx + int (length (edge # es)) then Some lab
                               else map_of L1 n)"
    using conjunct2[OF conjunct2[OF IH]] by (auto simp: Lc_def map_of_dict_set w_def)
  show ?case using E N M by (intro conjI)
qed


lemma last_sort_Max: "ns \<noteq> [] \<Longrightarrow> last (sort ns) = Max (set (ns::int list))"
proof -
  assume ne: "ns \<noteq> []"
  then have ne': "sort ns \<noteq> []" by (metis length_0_conv length_sort)
  have "Max (set ns) = last (sort ns)"
  proof (rule Max_eqI)
    show "finite (set ns)" by simp
    show "last (sort ns) \<in> set ns" using last_in_set[OF ne'] by simp
    fix y assume "y \<in> set ns"
    then have "y \<in> set (sort ns)" by simp
    then obtain i where i: "i < length (sort ns)" "sort ns ! i = y" by (metis in_set_conv_nth)
    have "sort ns ! i \<le> sort ns ! (length (sort ns) - 1)"
      by (rule sorted_nth_mono) (use i in auto)
    then show "y \<le> last (sort ns)" using i ne' by (simp add: last_conv_nth)
  qed
  then show ?thesis by simp
qed

lemma zip_upto_mem:
  "(a, b) \<in> set (zip xs [m + 1..m + int (length xs)])
     \<longleftrightarrow> (\<exists>i < length xs. a = xs ! i \<and> b = m + 1 + int i)"
proof -
  have len: "length [m + 1..m + int (length xs)] = length xs" by simp
  have nth: "\<And>i. i < length xs \<Longrightarrow> [m + 1..m + int (length xs)] ! i = m + 1 + int i"
    by (rule nth_upto) simp
  show ?thesis
  proof
    assume "(a, b) \<in> set (zip xs [m + 1..m + int (length xs)])"
    then obtain i where i: "i < length xs" "xs ! i = a" "[m + 1..m + int (length xs)] ! i = b"
      unfolding set_zip len by auto
    then show "\<exists>i < length xs. a = xs ! i \<and> b = m + 1 + int i" using nth by auto
  next
    assume "\<exists>i < length xs. a = xs ! i \<and> b = m + 1 + int i"
    then obtain i where i: "i < length xs" "a = xs ! i" "b = m + 1 + int i" by auto
    then have "(a, b) = (xs ! i, [m + 1..m + int (length xs)] ! i)" using nth by simp
    then show "(a, b) \<in> set (zip xs [m + 1..m + int (length xs)])"
      unfolding set_zip len using i(1) by auto
  qed
qed

lemma neighbors_set:
  "set (neighbors G n) = {b. (n, b) \<in> set (edges G)} \<union> {a. (a, n) \<in> set (edges G)}"
  by (auto simp: neighbors_def image_iff)

text \<open>
  C7. For a non-empty graph whose nodes all carry a label and whose edges join nodes of
  the graph, \<open>expand_graph\<close> returns without error a graph and a label map such that:
  the nodes are the original ones together with one fresh identifier per edge, the
  fresh identifiers being the integers directly above the largest original one; every
  original node keeps its label; the fresh node of the \<open>i\<close>-th edge is labelled one more
  than the largest label of the input map and its neighbours are exactly the two
  endpoints of that edge; and no two original nodes are adjacent any more.
\<close>

theorem expand_graph_correct:
  assumes "nodes G \<noteq> []"
    and "\<forall>n \<in> set (nodes G). map_of L n \<noteq> None"
    and "\<forall>e \<in> set (edges G). fst e \<in> set (nodes G) \<and> snd e \<in> set (nodes G)"
  shows "case expand_graph G L of Inl err \<Rightarrow> False
     | Inr (G', L') \<Rightarrow>
         set (nodes G') = set (nodes G)
            \<union> {Max (set (nodes G)) + 1..Max (set (nodes G)) + int (length (edges G))}
       \<and> (\<forall>n \<in> set (nodes G). map_of L' n = map_of L n)
       \<and> (\<forall>i < length (edges G).
            map_of L' (Max (set (nodes G)) + 1 + int i) = Some (Max (set (map snd L)) + 1)
          \<and> set (neighbors G' (Max (set (nodes G)) + 1 + int i))
              = {fst (edges G ! i), snd (edges G ! i)})
       \<and> (\<forall>u \<in> set (nodes G). \<forall>v \<in> set (nodes G). \<not> has_edge G' u v)"
proof -
  define m where "m = Max (set (nodes G))"
  define lab where "lab = Max (set (map snd L)) + 1"
  define es where "es = edges G"
  have mx: "\<forall>n \<in> set (nodes G). n \<le> m" by (simp add: m_def)
  obtain n0 where n0: "n0 \<in> set (nodes G)" using assms(1) by (cases "nodes G") auto
  then have "map_of L n0 \<noteq> None" using assms(2) by simp
  then have Lne: "map snd L \<noteq> []" by (cases L) auto
  have pm: "py_max (map snd L) = Inr (Max (set (map snd L)))"
    using Lne by (simp add: py_max_Inr)
  have sne: "sort (nodes G) \<noteq> []" using assms(1) by (metis length_0_conv length_sort)
  have pl: "py_last (sort (nodes G)) = Inr m"
    using sne last_sort_Max[OF assms(1)] by (cases "sort (nodes G)") (auto simp: py_last_def m_def)
  have lab': "\<forall>n \<in> set (sort (nodes G)). map_of L n \<noteq> None" using assms(2) by simp
  obtain G1 L1 where r1: "expand_nodes (sort (nodes G)) L (empty_graph, []) = Inr (G1, L1)"
    and n1: "set (nodes G1) = set (nodes empty_graph) \<union> set (sort (nodes G))"
    and e1: "edges G1 = edges empty_graph"
    and m1: "\<forall>n. map_of L1 n = (if n \<in> set (sort (nodes G)) then map_of L n else map_of [] n)"
    using expand_nodes_result[OF lab', of empty_graph "[]"] by blast
  obtain G2 L2 where r2: "expand_edges es lab m (G1, L1) = (G2, L2)"
    by (cases "expand_edges es lab m (G1, L1)") auto
  have eg: "expand_graph G L = Inr (G2, L2)"
    using pm pl r1 r2 by (simp add: expand_graph_def Let_def lab_def es_def)
  have n1': "set (nodes G1) = set (nodes G)" using n1 by (simp add: empty_graph_def)
  have e1': "edges G1 = []" using e1 by (simp add: empty_graph_def)
  have ends: "\<forall>e \<in> set es. fst e \<le> m \<and> snd e \<le> m"
    using assms(3) mx by (auto simp: es_def)
  have ends': "\<forall>e \<in> set es. fst e \<in> set (nodes G) \<and> snd e \<in> set (nodes G)"
    using assms(3) by (simp add: es_def)
  have none: "\<forall>e \<in> set (edges G1). fst e \<le> m \<and> snd e \<le> m" using e1' by simp
  note R = expand_edges_result[OF r2 ends none]
  have E2: "set (edges G2) = set (zip (map fst es) [m + 1..m + int (length es)])
                          \<union> set (zip (map snd es) [m + 1..m + int (length es)])"
    using conjunct1[OF R] e1' by simp
  have N2: "set (nodes G2) = set (nodes G) \<union> {m + 1..m + int (length es)}"
    using conjunct1[OF conjunct2[OF R]] n1' ends' by auto
  have M2: "\<forall>n. map_of L2 n = (if m < n \<and> n \<le> m + int (length es) then Some lab
                               else map_of L1 n)"
    using conjunct2[OF conjunct2[OF R]] .
  have mem: "\<And>a b. (a, b) \<in> set (edges G2) \<longleftrightarrow>
       (\<exists>i < length es. b = m + 1 + int i \<and> (a = fst (es ! i) \<or> a = snd (es ! i)))"
    unfolding E2 Un_iff
    using zip_upto_mem[of _ _ "map fst es" m] zip_upto_mem[of _ _ "map snd es" m]
    by auto
  have P1: "set (nodes G2) = set (nodes G) \<union> {m + 1..m + int (length (edges G))}"
    using N2 by (simp add: es_def)
  have P2: "\<forall>n \<in> set (nodes G). map_of L2 n = map_of L n"
    using M2 m1 mx by auto
  have P3: "\<forall>i < length (edges G).
            map_of L2 (m + 1 + int i) = Some lab
          \<and> set (neighbors G2 (m + 1 + int i)) = {fst (edges G ! i), snd (edges G ! i)}"
  proof (intro allI impI conjI)
    fix i assume i: "i < length (edges G)"
    then show "map_of L2 (m + 1 + int i) = Some lab" using M2 by (simp add: es_def)
    have a: "{b. (m + 1 + int i, b) \<in> set (edges G2)} = {}"
    proof -
      { fix b assume "(m + 1 + int i, b) \<in> set (edges G2)"
        then obtain j where j: "j < length es"
          "m + 1 + int i = fst (es ! j) \<or> m + 1 + int i = snd (es ! j)"
          using mem by blast
        have "fst (es ! j) \<le> m \<and> snd (es ! j) \<le> m" using ends j(1) by simp
        then have False using j(2) by auto }
      then show ?thesis by blast
    qed
    have b: "{a. (a, m + 1 + int i) \<in> set (edges G2)} = {fst (es ! i), snd (es ! i)}"
      using i by (auto simp: mem es_def)
    show "set (neighbors G2 (m + 1 + int i)) = {fst (edges G ! i), snd (edges G ! i)}"
      unfolding neighbors_set a b by (simp add: es_def)
  qed
  have P4: "\<forall>u \<in> set (nodes G). \<forall>v \<in> set (nodes G). \<not> has_edge G2 u v"
  proof (intro ballI notI)
    fix u v assume uv: "u \<in> set (nodes G)" "v \<in> set (nodes G)" and h: "has_edge G2 u v"
    have "u \<le> m" "v \<le> m" using uv mx by auto
    moreover have "(u, v) \<in> set (edges G2) \<or> (v, u) \<in> set (edges G2)"
      using h by (simp add: has_edge_def)
    ultimately show False by (auto simp: mem)
  qed
  show ?thesis
    unfolding eg sum.case prod.case
    using P1 P2 P3 P4 unfolding m_def lab_def by (intro conjI)
qed

text \<open>The path on three nodes, all labelled 0.\<close>

theorem expand_graph_correct_witness:
  "expand_graph path3 [(0, 0), (1, 0), (2, 0)] =
     Inr (\<lparr>nodes = [0, 1, 2, 3, 4], edges = [(0, 3), (1, 3), (1, 4), (2, 4)]\<rparr>,
          [(0, 0), (1, 0), (2, 0), (3, 1), (4, 1)])
   \<and> set (neighbors \<lparr>nodes = [0, 1, 2, 3, 4], edges = [(0, 3), (1, 3), (1, 4), (2, 4)]\<rparr> 4)
       = {1, 2}
   \<and> \<not> has_edge \<lparr>nodes = [0, 1, 2, 3, 4], edges = [(0, 3), (1, 3), (1, 4), (2, 4)]\<rparr> 1 2"
proof -
  have ev: "expand_graph path3 [(0, 0), (1, 0), (2, 0)] =
     Inr (\<lparr>nodes = [0, 1, 2, 3, 4], edges = [(0, 3), (1, 3), (1, 4), (2, 4)]\<rparr>,
          [(0, 0), (1, 0), (2, 0), (3, 1), (4, 1)])"
    by code_simp
  have h1: "nodes path3 \<noteq> []" by (simp add: path3_def)
  have h2: "\<forall>n \<in> set (nodes path3). map_of [(0, 0), (1, 0), (2, 0::int)] n \<noteq> None"
    by (simp add: path3_def)
  have h3: "\<forall>e \<in> set (edges path3). fst e \<in> set (nodes path3) \<and> snd e \<in> set (nodes path3)"
    by (simp add: path3_def)
  note T = expand_graph_correct[OF h1 h2 h3, unfolded ev sum.case prod.case]
  have mx: "Max (set (nodes path3)) = 2" by (simp add: path3_def)
  have "set (neighbors \<lparr>nodes = [0, 1, 2, 3, 4], edges = [(0, 3), (1, 3), (1, 4), (2, 4)]\<rparr>
           (Max (set (nodes path3)) + 1 + int 1)) = {fst (edges path3 ! 1), snd (edges path3 ! 1)}"
    using conjunct1[OF conjunct2[OF conjunct2[OF T]], rule_format, of 1]
    by (simp add: path3_def)
  then have a: "set (neighbors \<lparr>nodes = [0, 1, 2, 3, 4],
       edges = [(0, 3), (1, 3), (1, 4), (2, 4)]\<rparr> 4) = {1, 2}"
    unfolding mx by (simp add: path3_def)
  have b: "\<not> has_edge \<lparr>nodes = [0, 1, 2, 3, 4], edges = [(0, 3), (1, 3), (1, 4), (2, 4)]\<rparr> 1 2"
    using conjunct2[OF conjunct2[OF conjunct2[OF T]]] by (simp add: path3_def)
  show ?thesis using ev a b by (intro conjI)
qed

section \<open>Properties of the initial overlays\<close>

lemma labels_of_nodes_Inr:
  assumes "labels_of_nodes ext ns = Inr d" and "n \<in> set ns"
  shows "map_of d n = map_of ext n \<and> map_of ext n \<noteq> None"
proof -
  define g where "g = (\<lambda>n. case dict_get ext n of
                           Inl e \<Rightarrow> Inl e | Inr l \<Rightarrow> Inr (n, l))"
  obtain kvs where kvs: "map_err g ns = Inr kvs" and d: "d = dict_of kvs"
    using assms(1) by (auto simp: labels_of_nodes_def g_def split: sum.splits)
  have l2: "list_all2 (\<lambda>x y. g x = Inr y) ns kvs" using kvs by (simp add: map_err_Inr)
  have each: "\<forall>(k, x) \<in> set kvs. k \<in> set ns \<and> g k = Inr (k, x)"
    using l2 by (induction ns kvs rule: list_all2_induct) (auto simp: g_def split: sum.splits)
  have fsts: "map fst kvs = ns"
    using l2 by (induction ns kvs rule: list_all2_induct) (auto simp: g_def split: sum.splits)
  define f where "f = (\<lambda>k. the (map_of ext k))"
  have fn: "\<forall>(k, x) \<in> set (rev kvs). x = f k"
    using each by (auto simp: g_def f_def dict_get_def split: option.splits)
  have "n \<in> fst ` set (rev kvs)" using fsts assms(2) by (metis set_map set_rev)
  then have k: "map_of d n = Some (f n)"
    unfolding d map_of_dict_of using map_of_functional[OF fn] by simp
  obtain x where "(n, x) \<in> set kvs"
    using fsts assms(2) by (metis (no_types) fst_conv imageE set_map prod.collapse)
  then have "g n = Inr (n, x)" using each by auto
  then obtain l where "map_of ext n = Some l"
    by (auto simp: g_def dict_get_def split: option.splits)
  then show ?thesis using k by (simp add: f_def)
qed

text \<open>An edge and an isolated node, and its expanded graph.\<close>

definition pendant_edge :: graph where
  "pendant_edge = \<lparr>nodes = [0, 1, 2], edges = [(0, 1)]\<rparr>"

definition pendant_edge_expanded :: graph where
  "pendant_edge_expanded = \<lparr>nodes = [0, 1, 2, 3], edges = [(0, 3), (1, 3)]\<rparr>"

text \<open>
  C8. What the constructor builds as the overlay of a node \<open>p\<close>: every other node is
  mapped to its external label and \<open>p\<close> to one more than the maximum of the discarded
  head-start map. That value is greater than the overlay value of every other node
  exactly when no other node has an external label above the head-start maximum.
\<close>

theorem initial_overlay_individualizes:
  assumes "initial_overlay G ns external_labels basic_overlay p = Inr overlay"
  shows "\<exists>hs. head_start G ns basic_overlay p = Inr hs \<and> hs \<noteq> []
     \<and> map_of overlay p = Some (Max (snd ` set hs) + 1)
     \<and> (\<forall>n \<in> set ns. n \<noteq> p \<longrightarrow>
           map_of overlay n = map_of external_labels n \<and> map_of external_labels n \<noteq> None)
     \<and> ((\<forall>n \<in> set ns. n \<noteq> p \<longrightarrow>
             (\<forall>v. map_of overlay n = Some v \<longrightarrow> v < Max (snd ` set hs) + 1))
          \<longleftrightarrow> (\<forall>n \<in> set ns. n \<noteq> p \<longrightarrow>
                 (\<forall>l. map_of external_labels n = Some l \<longrightarrow> l \<le> Max (snd ` set hs))))"
proof -
  obtain hs where hs: "head_start G ns basic_overlay p = Inr hs"
    using assms by (cases "head_start G ns basic_overlay p") (auto simp: initial_overlay_def)
  obtain mv where mv: "py_max (map snd hs) = Inr mv"
    using assms hs by (cases "py_max (map snd hs)") (auto simp: initial_overlay_def)
  obtain ov0 where ov0: "labels_of_nodes external_labels ns = Inr ov0"
    and ov: "overlay = dict_set ov0 p (mv + 1)"
    using assms hs mv
    by (cases "labels_of_nodes external_labels ns") (auto simp: initial_overlay_def)
  have ne: "hs \<noteq> []" and mx: "mv = Max (snd ` set hs)"
    using mv by (auto simp: py_max_Inr)
  have P: "map_of overlay p = Some (Max (snd ` set hs) + 1)"
    by (simp add: ov map_of_dict_set mx)
  have O: "\<forall>n \<in> set ns. n \<noteq> p \<longrightarrow>
           map_of overlay n = map_of external_labels n \<and> map_of external_labels n \<noteq> None"
    using labels_of_nodes_Inr[OF ov0] by (simp add: ov map_of_dict_set)
  have S: "(\<forall>n \<in> set ns. n \<noteq> p \<longrightarrow>
             (\<forall>v. map_of overlay n = Some v \<longrightarrow> v < Max (snd ` set hs) + 1))
          \<longleftrightarrow> (\<forall>n \<in> set ns. n \<noteq> p \<longrightarrow>
                 (\<forall>l. map_of external_labels n = Some l \<longrightarrow> l \<le> Max (snd ` set hs)))"
    using O by fastforce
  show ?thesis using hs ne P O S by (intro exI[of _ hs] conjI)
qed

text \<open>
  The claim fails on the graph with nodes 0, 1, 2 and the edge between 0 and 1, every
  node labelled 10. The expanded graph has the node 3, labelled 11, for the edge; its
  basic overlay is \<open>{2: 0, 0: 1, 1: 1, 3: 2}\<close>; the head-start map of node 2 has the
  maximum 9; so the overlay of node 2 maps node 2 to 10, the value of nodes 0 and 1 and
  less than the value of node 3.
\<close>

theorem initial_overlay_counterexample:
  "expand_graph pendant_edge [(0, 10), (1, 10), (2, 10)]
     = Inr (pendant_edge_expanded, [(0, 10), (1, 10), (2, 10), (3, 11)])
   \<and> map_sum id self_internal_labels
        (init_plain pendant_edge_expanded (Some [(0, 10), (1, 10), (2, 10), (3, 11)]))
     = Inr [(2, 0), (0, 1), (1, 1), (3, 2)]
   \<and> head_start pendant_edge_expanded [0, 1, 2, 3] [(2, 0), (0, 1), (1, 1), (3, 2)] 2
     = Inr [(0, 5), (1, 5), (2, 0), (3, 9)]
   \<and> initial_overlay pendant_edge_expanded [0, 1, 2, 3] [(0, 10), (1, 10), (2, 10), (3, 11)]
        [(2, 0), (0, 1), (1, 1), (3, 2)] 2
     = Inr [(0, 10), (1, 10), (2, 10), (3, 11)]"
proof -
  have a: "expand_graph pendant_edge [(0, 10), (1, 10), (2, 10)]
     = Inr (pendant_edge_expanded, [(0, 10), (1, 10), (2, 10), (3, 11)])"
    by code_simp
  have b: "map_sum id self_internal_labels
        (init_plain pendant_edge_expanded (Some [(0, 10), (1, 10), (2, 10), (3, 11)]))
     = Inr [(2, 0), (0, 1), (1, 1), (3, 2)]"
    by code_simp
  have c: "head_start pendant_edge_expanded [0, 1, 2, 3] [(2, 0), (0, 1), (1, 1), (3, 2)] 2
     = Inr [(0, 5), (1, 5), (2, 0), (3, 9)]"
    by code_simp
  have d: "initial_overlay pendant_edge_expanded [0, 1, 2, 3]
        [(0, 10), (1, 10), (2, 10), (3, 11)] [(2, 0), (0, 1), (1, 1), (3, 2)] 2
     = Inr [(0, 10), (1, 10), (2, 10), (3, 11)]"
    by code_simp
  show ?thesis using a b c d by (intro conjI)
qed

theorem initial_overlay_individualizes_witness:
  "initial_overlay path3 [0, 1, 2] [(0, 0), (1, 0), (2, 0)] [(0, 0), (2, 0), (1, 1)] 0
     = Inr [(0, 5), (1, 0), (2, 0)]
   \<and> head_start path3 [0, 1, 2] [(0, 0), (2, 0), (1, 1)] 0 = Inr [(0, 0), (1, 4), (2, 2)]
   \<and> map_of ([(0, 5), (1, 0), (2, 0)] :: dict) 0 = Some (Max (snd ` set ([(0, 0), (1, 4), (2, 2)] :: dict)) + 1)"
proof -
  have a: "initial_overlay path3 [0, 1, 2] [(0, 0), (1, 0), (2, 0)] [(0, 0), (2, 0), (1, 1)] 0
     = Inr [(0, 5), (1, 0), (2, 0)]"
    by code_simp
  have h: "head_start path3 [0, 1, 2] [(0, 0), (2, 0), (1, 1)] 0 = Inr [(0, 0), (1, 4), (2, 2)]"
    by code_simp
  obtain hs where hs: "head_start path3 [0, 1, 2] [(0, 0), (2, 0), (1, 1)] 0 = Inr hs"
    and p: "map_of ([(0, 5), (1, 0), (2, 0)] :: dict) 0 = Some (Max (snd ` set hs) + 1)"
    using initial_overlay_individualizes[OF a] by blast
  have "hs = [(0, 0), (1, 4), (2, 2)]" using hs h by simp
  then show ?thesis using a h p by simp
qed

section \<open>Properties of the canonical form\<close>

text \<open>
  The same graph with the isolated node first: nodes 0, 1, 2 and the edge between 1
  and 2. Exchanging 0 and 2 maps one graph to the other.
\<close>

definition edge_isolated :: graph where
  "edge_isolated = \<lparr>nodes = [0, 1, 2], edges = [(1, 2)]\<rparr>"

definition swap_0_2 :: "int \<Rightarrow> int" where
  "swap_0_2 n = (if n = 0 then 2 else if n = 2 then 0 else n)"

text \<open>The graph \<open>pendant_edge\<close> itself, its nodes inserted in the order 2, 0, 1.\<close>

definition pendant_edge_reordered :: graph where
  "pendant_edge_reordered = \<lparr>nodes = [2, 0, 1], edges = [(0, 1)]\<rparr>"

text \<open>
  C1. Isomorphism invariance fails. The graphs \<open>pendant_edge\<close> and \<open>edge_isolated\<close> are
  isomorphic by the exchange of 0 and 2, which preserves the labels when every node is
  labelled 10, and the constructor returns for them the same \<^verbatim>\<open>ordered_labels\<close> but
  different matrices. No node of the three is individualised by its overlay, so the
  three stay in one class and the first node of the node list is placed first: an end
  of the edge in one graph, the isolated node in the other. The form even depends on
  the order in which the nodes of one and the same graph were inserted.
\<close>

theorem canonical_form_not_invariant:
  "set (nodes edge_isolated) = swap_0_2 ` set (nodes pendant_edge)
   \<and> (\<lambda>(u, v). {u, v}) ` set (edges edge_isolated)
       = (\<lambda>(u, v). {swap_0_2 u, swap_0_2 v}) ` set (edges pendant_edge)
   \<and> map (\<lambda>n. map_of ([(0, 10), (1, 10), (2, 10)] :: dict) (swap_0_2 n)) (nodes pendant_edge)
       = map (map_of ([(0, 10), (1, 10), (2, 10)] :: dict)) (nodes pendant_edge)
   \<and> map_sum id canonical_form (init_master pendant_edge (Some [(0, 10), (1, 10), (2, 10)]))
       = Inr (Some [10, 10, 10], Some [[0, 1], [0], []])
   \<and> map_sum id canonical_form (init_master edge_isolated (Some [(0, 10), (1, 10), (2, 10)]))
       = Inr (Some [10, 10, 10], Some [[0, 0], [1], []])
   \<and> set (nodes pendant_edge_reordered) = set (nodes pendant_edge)
   \<and> edges pendant_edge_reordered = edges pendant_edge
   \<and> map_sum id canonical_form
         (init_master pendant_edge_reordered (Some [(0, 10), (1, 10), (2, 10)]))
       = Inr (Some [10, 10, 10], Some [[0, 0], [1], []])"
proof -
  have a: "set (nodes edge_isolated) = swap_0_2 ` set (nodes pendant_edge)"
    by (auto simp: edge_isolated_def pendant_edge_def swap_0_2_def)
  have b: "(\<lambda>(u, v). {u, v}) ` set (edges edge_isolated)
       = (\<lambda>(u, v). {swap_0_2 u, swap_0_2 v}) ` set (edges pendant_edge)"
    by (auto simp: edge_isolated_def pendant_edge_def swap_0_2_def)
  have c: "map (\<lambda>n. map_of ([(0, 10), (1, 10), (2, 10)] :: dict) (swap_0_2 n))
             (nodes pendant_edge)
       = map (map_of ([(0, 10), (1, 10), (2, 10)] :: dict)) (nodes pendant_edge)"
    by (simp add: pendant_edge_def swap_0_2_def)
  have d: "map_sum id canonical_form
             (init_master pendant_edge (Some [(0, 10), (1, 10), (2, 10)]))
       = Inr (Some [10, 10, 10], Some [[0, 1], [0], []])"
    by code_simp
  have e: "map_sum id canonical_form
             (init_master edge_isolated (Some [(0, 10), (1, 10), (2, 10)]))
       = Inr (Some [10, 10, 10], Some [[0, 0], [1], []])"
    by code_simp
  have f: "set (nodes pendant_edge_reordered) = set (nodes pendant_edge)"
    by (auto simp: pendant_edge_reordered_def pendant_edge_def)
  have g: "edges pendant_edge_reordered = edges pendant_edge"
    by (simp add: pendant_edge_reordered_def pendant_edge_def)
  have h: "map_sum id canonical_form
         (init_master pendant_edge_reordered (Some [(0, 10), (1, 10), (2, 10)]))
       = Inr (Some [10, 10, 10], Some [[0, 0], [1], []])"
    by code_simp
  show ?thesis using a b c d e f g h by (intro conjI)
qed

text \<open>
  C2, as amended. On the empty graph the constructor raises: ValueError when the label
  map is absent or empty (\<^verbatim>\<open>max\<close> of an empty list in \<^verbatim>\<open>expand_graph\<close>), IndexError
  otherwise (\<^verbatim>\<open>node_list[-1]\<close>). On a graph with nodes, all labelled, and no edge,
  \<^verbatim>\<open>expand_graph\<close> returns the nodes with their labels and no edge.
\<close>

theorem canonicalize_empty_graph:
  "init_master empty_graph external_labels
     = Inl (if external_labels = None \<or> external_labels = Some [] then ValueError
            else IndexError)
   \<and> (\<forall>G L. nodes G \<noteq> [] \<and> edges G = [] \<and> (\<forall>n \<in> set (nodes G). map_of L n \<noteq> None) \<longrightarrow>
         (\<exists>G' L'. expand_graph G L = Inr (G', L') \<and> set (nodes G') = set (nodes G)
            \<and> edges G' = [] \<and> (\<forall>n \<in> set (nodes G). map_of L' n = map_of L n)))"
proof -
  have A: "init_master empty_graph external_labels
     = Inl (if external_labels = None \<or> external_labels = Some [] then ValueError
            else IndexError)"
  proof (cases external_labels)
    case None
    then show ?thesis
      by (simp add: init_master_def init_refine_def default_labels_def dict_of_def
            expand_graph_def py_max_def empty_graph_def)
  next
    case (Some d)
    show ?thesis
    proof (cases d)
      case Nil
      then show ?thesis using Some
        by (simp add: init_master_def init_refine_def default_labels_def
              expand_graph_def py_max_def empty_graph_def)
    next
      case (Cons x xs)
      then show ?thesis using Some
        by (simp add: init_master_def init_refine_def default_labels_def
              expand_graph_def py_max_def py_last_def empty_graph_def Let_def)
    qed
  qed
  have B: "\<forall>G L. nodes G \<noteq> [] \<and> edges G = [] \<and> (\<forall>n \<in> set (nodes G). map_of L n \<noteq> None) \<longrightarrow>
         (\<exists>G' L'. expand_graph G L = Inr (G', L') \<and> set (nodes G') = set (nodes G)
            \<and> edges G' = [] \<and> (\<forall>n \<in> set (nodes G). map_of L' n = map_of L n))"
  proof (intro allI impI, elim conjE)
    fix G :: graph and L :: dict
    assume ne: "nodes G \<noteq> []" and ed: "edges G = []"
      and lab: "\<forall>n \<in> set (nodes G). map_of L n \<noteq> None"
    obtain n0 where "n0 \<in> set (nodes G)" using ne by (cases "nodes G") auto
    then have "map_of L n0 \<noteq> None" using lab by simp
    then have "map snd L \<noteq> []" by (cases L) auto
    then obtain m where pm: "py_max (map snd L) = Inr m" by (simp add: py_max_Inr)
    have "sort (nodes G) \<noteq> []" using ne by (metis length_0_conv length_sort)
    then obtain nx where pl: "py_last (sort (nodes G)) = Inr nx"
      by (cases "sort (nodes G)") (auto simp: py_last_def)
    have lab': "\<forall>n \<in> set (sort (nodes G)). map_of L n \<noteq> None" using lab by simp
    obtain G1 L1 where r1: "expand_nodes (sort (nodes G)) L (empty_graph, []) = Inr (G1, L1)"
      and n1: "set (nodes G1) = set (nodes empty_graph) \<union> set (sort (nodes G))"
      and e1: "edges G1 = edges empty_graph"
      and m1: "\<forall>n. map_of L1 n = (if n \<in> set (sort (nodes G)) then map_of L n else map_of [] n)"
      using expand_nodes_result[OF lab', of empty_graph "[]"] by blast
    have eg: "expand_graph G L = Inr (G1, L1)"
      using pm pl r1 ed by (simp add: expand_graph_def Let_def)
    have "set (nodes G1) = set (nodes G)" using n1 by (simp add: empty_graph_def)
    moreover have "edges G1 = []" using e1 by (simp add: empty_graph_def)
    moreover have "\<forall>n \<in> set (nodes G). map_of L1 n = map_of L n" using m1 by simp
    ultimately show "\<exists>G' L'. expand_graph G L = Inr (G', L') \<and> set (nodes G') = set (nodes G)
            \<and> edges G' = [] \<and> (\<forall>n \<in> set (nodes G). map_of L' n = map_of L n)"
      using eg by (intro exI[of _ G1] exI[of _ L1] conjI)
  qed
  show ?thesis using A B by (rule conjI)
qed

theorem canonicalize_empty_graph_counterexample:
  "init_master empty_graph None = Inl ValueError
   \<and> init_master empty_graph (Some []) = Inl ValueError
   \<and> init_master empty_graph (Some [(0, 0)]) = Inl IndexError"
  by (simp add: init_master_def init_refine_def default_labels_def dict_of_def
        expand_graph_def py_max_def py_last_def empty_graph_def)

theorem canonicalize_empty_graph_witness:
  "\<exists>G' L'. expand_graph three_isolated [(0, 0), (1, 0), (2, 0)] = Inr (G', L')
      \<and> set (nodes G') = {0, 1, 2} \<and> edges G' = []"
proof -
  have h: "nodes three_isolated \<noteq> [] \<and> edges three_isolated = []
      \<and> (\<forall>n \<in> set (nodes three_isolated). map_of ([(0, 0), (1, 0), (2, 0)] :: dict) n \<noteq> None)"
    by (simp add: three_isolated_def)
  obtain G' L' where "expand_graph three_isolated [(0, 0), (1, 0), (2, 0)] = Inr (G', L')"
    "set (nodes G') = set (nodes three_isolated)" "edges G' = []"
    using conjunct2[OF canonicalize_empty_graph, rule_format, OF h] by blast
  then show ?thesis by (auto simp: three_isolated_def)
qed

lemma map_err_map_fst:
  assumes "map_err f xs = Inr ys" and "\<forall>x y. f x = Inr y \<longrightarrow> g y = h x"
  shows "map g ys = map h xs"
proof -
  have "list_all2 (\<lambda>x y. f x = Inr y) xs ys" using assms(1) by (simp add: map_err_Inr)
  then show ?thesis
    by (induction xs ys rule: list_all2_induct) (use assms(2) in auto)
qed

lemma relabel_fst: "map fst (relabel xs prev next_label) = map fst xs"
  by (induction xs prev next_label rule: relabel.induct) auto

lemma further_sort_mset:
  assumes "further_sort xs new_labels = Inr ys"
  shows "mset (map fst ys) = mset (map fst xs)" and "length ys = length xs" and "xs \<noteq> []"
proof -
  define f where "f = (\<lambda>(n :: int, v :: int). case dict_get new_labels n of
                               Inl e \<Rightarrow> Inl e
                             | Inr l \<Rightarrow> Inr (n, (v, l)))"
  obtain paired where p: "map_err f xs = Inr paired"
    using assms by (cases "map_err f xs") (auto simp: further_sort_def f_def)
  have fs: "map fst paired = map fst xs"
    by (rule map_err_map_fst[OF p]) (auto simp: f_def split: sum.splits)
  obtain n pv rest where s: "sort_key snd paired = (n, pv) # rest"
    and ys: "ys = (n, 0) # relabel rest pv 0"
    using assms p by (cases "sort_key snd paired") (auto simp: further_sort_def f_def)
  have "map fst ys = map fst (sort_key snd paired)" by (simp add: s ys relabel_fst)
  then have "mset (map fst ys) = mset (map fst paired)" by (metis mset_map mset_sort)
  then show "mset (map fst ys) = mset (map fst xs)" using fs by simp
  then have "length (map fst ys) = length (map fst xs)" by (metis size_mset)
  then show "length ys = length xs" by simp
  then show "xs \<noteq> []" using ys by auto
qed

lemma list_pop_mset:
  "i < length xs \<Longrightarrow> add_mset (xs ! i) (mset (list_pop xs i)) = mset xs"
proof -
  assume i: "i < length xs"
  have "xs = take i xs @ xs ! i # drop (Suc i) xs" by (rule id_take_nth_drop[OF i])
  then have "mset xs = mset (take i xs @ xs ! i # drop (Suc i) xs)" by simp
  then show ?thesis by (simp add: list_pop_def)
qed

lemma list_pop_length: "i < length xs \<Longrightarrow> length (list_pop xs i) = length xs - 1"
  by (auto simp: list_pop_def)

lemma canonical_step_mset:
  assumes "canonical_step G ovs (xs, final) = Inr (ys, final')"
  shows "\<exists>chosen. final' = final @ [chosen] \<and> xs \<noteq> []
      \<and> (if length xs > 1
          then add_mset chosen (mset (map fst ys)) = mset (map fst xs)
               \<and> length ys = length xs - 1
          else mset (map fst xs) = {#chosen#})"
proof -
  obtain last_node where ln: "py_last final = Inr last_node"
    using assms by (cases "py_last final") (auto simp: canonical_step_def)
  obtain overlay where ov: "dict_get ovs last_node = Inr overlay"
    using assms ln by (cases "dict_get ovs last_node") (auto simp: canonical_step_def)
  obtain s1 where s1: "further_sort xs overlay = Inr s1"
    using assms ln ov by (cases "further_sort xs overlay") (auto simp: canonical_step_def)
  define sel where "sel = find_selected s1 0"
  define branch where "branch =
     (if sel \<ge> length s1 \<or> (sel + 1 < length s1 \<and> snd (s1 ! sel) = snd (s1 ! (sel + 1)))
      then (case init_servant G (Some (tie_break_labels s1 final)) of
              Inl e \<Rightarrow> Inl e
            | Inr more_refined \<Rightarrow>
                (case further_sort s1 (self_internal_labels more_refined) of
                   Inl e \<Rightarrow> Inl e
                 | Inr node_ordering \<Rightarrow> Inr (node_ordering, 0)))
      else Inr (s1, sel))"
  have eq: "canonical_step G ovs (xs, final) =
     (case branch of
        Inl e \<Rightarrow> Inl e
      | Inr (s2, i) \<Rightarrow>
          (case py_nth s2 i of
             Inl e \<Rightarrow> Inl e
           | Inr chosen \<Rightarrow>
               Inr (if length s2 > 1 then list_pop s2 i else s2, final @ [fst chosen])))"
    unfolding canonical_step_def branch_def sel_def using ln ov s1 by (simp add: Let_def)
  note run = assms[unfolded eq]
  obtain s2 i where br: "branch = Inr (s2, i)"
    using run by (cases branch) auto
  obtain chosen where ch: "py_nth s2 i = Inr chosen"
    using run br by (cases "py_nth s2 i") auto
  have res: "ys = (if length s2 > 1 then list_pop s2 i else s2)" "final' = final @ [fst chosen]"
    using run br ch by auto
  have m1: "mset (map fst s1) = mset (map fst xs)" "length s1 = length xs" "xs \<noteq> []"
    using further_sort_mset[OF s1] by auto
  have m2: "mset (map fst s2) = mset (map fst s1) \<and> length s2 = length s1"
  proof (cases "sel \<ge> length s1 \<or> (sel + 1 < length s1 \<and> snd (s1 ! sel) = snd (s1 ! (sel + 1)))")
    case True
    then obtain mr where "init_servant G (Some (tie_break_labels s1 final)) = Inr mr"
      using br by (cases "init_servant G (Some (tie_break_labels s1 final))")
                  (auto simp: branch_def)
    moreover from this obtain s3 where "further_sort s1 (self_internal_labels mr) = Inr s3"
      using br True by (cases "further_sort s1 (self_internal_labels mr)") (auto simp: branch_def)
    ultimately have "further_sort s1 (self_internal_labels mr) = Inr s2"
      using br True by (auto simp: branch_def)
    then show ?thesis using further_sort_mset by blast
  next
    case False
    then have "s2 = s1" using br by (auto simp: branch_def)
    then show ?thesis by simp
  qed
  have i: "i < length s2" "chosen = s2 ! i"
    using ch by (auto simp: py_nth_def split: if_splits)
  have len: "length s2 = length xs" using m1 m2 by simp
  show ?thesis
  proof (cases "length xs > 1")
    case True
    then have ys: "ys = list_pop s2 i" using res len by simp
    have "add_mset (s2 ! i) (mset (list_pop s2 i)) = mset s2" by (rule list_pop_mset[OF i(1)])
    then have "image_mset fst (add_mset (s2 ! i) (mset (list_pop s2 i))) = image_mset fst (mset s2)"
      by simp
    then have "add_mset (fst chosen) (mset (map fst ys)) = mset (map fst s2)"
      using ys i(2) by simp
    then have a: "add_mset (fst chosen) (mset (map fst ys)) = mset (map fst xs)"
      using m1 m2 by simp
    have b: "length ys = length xs - 1" using ys list_pop_length[OF i(1)] len by simp
    show ?thesis using res(2) m1(3) True a b by (intro exI[of _ "fst chosen"]) simp
  next
    case False
    then have l1: "length s2 = 1" using len m1(3) by (cases xs) auto
    then obtain x where x: "s2 = [x]" by (cases s2) auto
    then have "chosen = x" using i by simp
    then have "mset (map fst s2) = {#fst chosen#}" using x by simp
    then have "mset (map fst xs) = {#fst chosen#}" using m1 m2 by simp
    then show ?thesis using res(2) m1(3) False by (intro exI[of _ "fst chosen"]) simp
  qed
qed

lemma canonical_loop_mset:
  "canonical_loop G ovs k (xs, final) = Inr (ys, final') \<Longrightarrow> length xs = k \<Longrightarrow>
     mset final' = mset final + mset (map fst xs)"
proof (induction k arbitrary: xs final)
  case 0
  then show ?case by simp
next
  case (Suc k)
  obtain st where st: "canonical_step G ovs (xs, final) = Inr st"
    using Suc.prems(1) by (cases "canonical_step G ovs (xs, final)") auto
  obtain xs1 f1 where s: "st = (xs1, f1)" by (cases st)
  have rec: "canonical_loop G ovs k (xs1, f1) = Inr (ys, final')"
    using Suc.prems(1) st s by simp
  obtain chosen where c: "f1 = final @ [chosen]"
    "(if length xs > 1
          then add_mset chosen (mset (map fst xs1)) = mset (map fst xs)
               \<and> length xs1 = length xs - 1
          else mset (map fst xs) = {#chosen#})"
    using canonical_step_mset[of G ovs xs final xs1 f1] st s by auto
  show ?case
  proof (cases "length xs > 1")
    case True
    then have a: "add_mset chosen (mset (map fst xs1)) = mset (map fst xs)"
      and l: "length xs1 = k" using c(2) Suc.prems(2) by auto
    have "mset final' = mset f1 + mset (map fst xs1)" by (rule Suc.IH[OF rec l])
    then show ?thesis using c(1) a by (metis add_mset_add_single mset.simps(2) mset_append
        union_mset_add_mset_left union_mset_add_mset_right add.commute mset_rev rev.simps(2) rev_rev_ident)
  next
    case False
    then have k0: "k = 0" using Suc.prems(2) by simp
    then have "final' = f1" using rec by simp
    moreover have "mset (map fst xs) = {#chosen#}" using c(2) False by simp
    ultimately show ?thesis using c(1) by simp
  qed
qed


lemma expand_nodes_Inr:
  assumes "expand_nodes ns L (G0, L0) = Inr (G1, L1)"
  shows "set (nodes G1) = set (nodes G0) \<union> set ns"
    and "\<forall>n. map_of L1 n = (if n \<in> set ns then map_of L n else map_of L0 n)"
    and "\<forall>n \<in> set ns. map_of L n \<noteq> None"
proof -
  have lab: "\<forall>n \<in> set ns. map_of L n \<noteq> None"
    using assms
  proof (induction ns arbitrary: G0 L0)
    case Nil
    then show ?case by simp
  next
    case (Cons node ns)
    obtain l where l: "dict_get L node = Inr l"
      using Cons.prems by (cases "dict_get L node") auto
    then have "expand_nodes ns L (add_node G0 node, dict_set L0 node l) = Inr (G1, L1)"
      using Cons.prems by simp
    then have "\<forall>n \<in> set ns. map_of L n \<noteq> None" by (rule Cons.IH)
    then show ?case using l by (simp add: dict_get_Inr)
  qed
  then show "\<forall>n \<in> set ns. map_of L n \<noteq> None" .
  obtain G1' L1' where r: "expand_nodes ns L (G0, L0) = Inr (G1', L1')"
    and n: "set (nodes G1') = set (nodes G0) \<union> set ns"
    and m: "\<forall>n. map_of L1' n = (if n \<in> set ns then map_of L n else map_of L0 n)"
    using expand_nodes_result[OF lab, of G0 L0] by blast
  have "G1' = G1" "L1' = L1" using r assms by auto
  then show "set (nodes G1) = set (nodes G0) \<union> set ns"
    and "\<forall>n. map_of L1 n = (if n \<in> set ns then map_of L n else map_of L0 n)"
    using n m by auto
qed

lemma expand_edges_keeps:
  "expand_edges es lab nx (G1, L1) = (G2, L2) \<Longrightarrow>
     set (nodes G1) \<subseteq> set (nodes G2) \<and> (\<forall>n. n \<le> nx \<longrightarrow> map_of L2 n = map_of L1 n)"
proof (induction es arbitrary: nx G1 L1)
  case Nil
  then show ?case by simp
next
  case (Cons edge es)
  define w where "w = nx + 1"
  define Gc where "Gc = add_edge (add_edge (add_node G1 w) (fst edge) w) (snd edge) w"
  define Lc where "Lc = dict_set L1 w lab"
  have run: "expand_edges es lab w (Gc, Lc) = (G2, L2)"
    using Cons.prems by (simp add: Let_def w_def Gc_def Lc_def)
  have IH: "set (nodes Gc) \<subseteq> set (nodes G2) \<and> (\<forall>n. n \<le> w \<longrightarrow> map_of L2 n = map_of Lc n)"
    by (rule Cons.IH[OF run])
  have "set (nodes G1) \<subseteq> set (nodes Gc)"
    by (auto simp: Gc_def add_edge_nodes add_node_simps)
  then have A: "set (nodes G1) \<subseteq> set (nodes G2)" using IH by blast
  have B: "\<forall>n. n \<le> nx \<longrightarrow> map_of L2 n = map_of L1 n"
    using IH by (simp add: Lc_def w_def map_of_dict_set)
  show ?case using A B by (rule conjI)
qed

lemma expand_graph_keeps:
  assumes "expand_graph G L = Inr (G', L')" and "n \<in> set (nodes G)"
  shows "n \<in> set (nodes G') \<and> map_of L' n = map_of L n \<and> map_of L n \<noteq> None"
proof -
  obtain m where pm: "py_max (map snd L) = Inr m"
    using assms(1) by (cases "py_max (map snd L)") (auto simp: expand_graph_def)
  obtain nx where pl: "py_last (sort (nodes G)) = Inr nx"
    using assms(1) pm by (cases "py_last (sort (nodes G))") (auto simp: expand_graph_def Let_def)
  obtain st where st: "expand_nodes (sort (nodes G)) L (empty_graph, []) = Inr st"
    using assms(1) pm pl
    by (cases "expand_nodes (sort (nodes G)) L (empty_graph, [])")
       (auto simp: expand_graph_def Let_def)
  obtain G1 L1 where s: "st = (G1, L1)" by (cases st)
  have e: "expand_edges (edges G) (m + 1) nx (G1, L1) = (G', L')"
    using assms(1) pm pl st s by (simp add: expand_graph_def Let_def)
  have r1: "expand_nodes (sort (nodes G)) L (empty_graph, []) = Inr (G1, L1)" using st s by simp
  note N = expand_nodes_Inr[OF r1]
  have ne: "nodes G \<noteq> []" using assms(2) by auto
  have "sort (nodes G) \<noteq> []" using ne by (metis length_0_conv length_sort)
  then have "nx = last (sort (nodes G))"
    using pl by (cases "sort (nodes G)") (auto simp: py_last_def)
  then have "nx = Max (set (nodes G))" using last_sort_Max[OF ne] by simp
  then have le: "n \<le> nx" using assms(2) by simp
  have K: "set (nodes G1) \<subseteq> set (nodes G') \<and> (\<forall>n. n \<le> nx \<longrightarrow> map_of L' n = map_of L1 n)"
    by (rule expand_edges_keeps[OF e])
  have "n \<in> set (nodes G1)" using N(1) assms(2) by simp
  then have a: "n \<in> set (nodes G')" using K by blast
  have b: "map_of L' n = map_of L n" using K le N(2) assms(2) by simp
  have c: "map_of L n \<noteq> None" using N(3) assms(2) by simp
  show ?thesis using a b c by simp
qed

lemma set_canonical_form_mset:
  assumes "set_canonical_form self = Inr self'"
  shows "\<exists>order ol. self_final_node_order self' = Some order
      \<and> self_ordered_labels self' = Some ol
      \<and> mset order = mset (self_initial_nodes self)
      \<and> ol = map (\<lambda>n. the (map_of (self_external_labels self) n)) order"
proof -
  define start where "start = map (\<lambda>n. (n, 0 :: int)) (self_initial_nodes self)"
  obtain o0 where o0: "further_sort start (self_internal_labels self) = Inr o0"
    using assms by (cases "further_sort start (self_internal_labels self)")
                   (auto simp: set_canonical_form_def start_def)
  obtain first where f: "py_nth o0 0 = Inr first"
    using assms o0 by (cases "py_nth o0 0") (auto simp: set_canonical_form_def start_def)
  obtain st where st: "canonical_loop (self_initial_G self) (self_nodewise_overlays self)
             (length (self_initial_nodes self) - 1) (drop 1 o0, [fst first]) = Inr st"
    using assms o0 f
    by (cases "canonical_loop (self_initial_G self) (self_nodewise_overlays self)
             (length (self_initial_nodes self) - 1) (drop 1 o0, [fst first])")
       (auto simp: set_canonical_form_def start_def)
  obtain o1 order where s: "st = (o1, order)" by (cases st)
  obtain ol where ol: "map_err (dict_get (self_external_labels self)) order = Inr ol"
    using assms o0 f st s
    by (cases "map_err (dict_get (self_external_labels self)) order")
       (auto simp: set_canonical_form_def start_def)
  have res: "self_final_node_order self' = Some order" "self_ordered_labels self' = Some ol"
    using assms o0 f st s ol by (auto simp: set_canonical_form_def start_def)
  have m0: "mset (map fst o0) = mset (map fst start)" "length o0 = length start"
    using further_sort_mset[OF o0] by auto
  have fs: "map fst start = self_initial_nodes self" by (simp add: start_def comp_def)
  have ne: "o0 \<noteq> []" "first = o0 ! 0" using f by (auto simp: py_nth_def split: if_splits)
  then have split: "o0 = first # drop 1 o0" by (cases o0) auto
  have len: "length (drop 1 o0) = length (self_initial_nodes self) - 1"
    using m0(2) by (simp add: start_def)
  have loop: "canonical_loop (self_initial_G self) (self_nodewise_overlays self)
             (length (self_initial_nodes self) - 1) (drop 1 o0, [fst first]) = Inr (o1, order)"
    using st s by simp
  have "mset order = mset [fst first] + mset (map fst (drop 1 o0))"
    by (rule canonical_loop_mset[OF loop len])
  also have "\<dots> = mset (map fst (first # drop 1 o0))" by simp
  also have "\<dots> = mset (map fst o0)" using split by simp
  finally have mo: "mset order = mset (self_initial_nodes self)" using m0(1) fs by simp
  have "map (\<lambda>y. y) ol = map (\<lambda>n. the (map_of (self_external_labels self) n)) order"
    by (rule map_err_map_fst[OF ol]) (auto simp: dict_get_Inr)
  then have lo: "ol = map (\<lambda>n. the (map_of (self_external_labels self) n)) order" by simp
  show ?thesis using res mo lo by blast
qed

text \<open>
  C9. Whenever the constructor returns, \<^verbatim>\<open>final_node_order\<close> is a permutation of the
  nodes of the input graph, every node of the input has an external label,
  \<^verbatim>\<open>ordered_labels\<close> lists the external labels of the nodes in the final order, and so
  the multiset of \<^verbatim>\<open>ordered_labels\<close> is the multiset of the external labels of the
  input's nodes.
\<close>

theorem ordered_labels_multiset:
  assumes "init_master G external_labels = Inr self"
  shows "\<exists>final_node_order ordered_labels.
      self_final_node_order self = Some final_node_order
    \<and> self_ordered_labels self = Some ordered_labels
    \<and> mset final_node_order = mset (nodes G)
    \<and> (\<forall>n \<in> set (nodes G). map_of (default_labels G external_labels) n \<noteq> None)
    \<and> ordered_labels
        = map (\<lambda>n. the (map_of (default_labels G external_labels) n)) final_node_order
    \<and> mset ordered_labels
        = mset (map (\<lambda>n. the (map_of (default_labels G external_labels) n)) (nodes G))"
proof -
  define L where "L = default_labels G external_labels"
  obtain self0 where r: "init_refine Master G external_labels = Inr self0"
    and c: "set_canonical_form self0 = Inr self"
    using assms by (cases "init_refine Master G external_labels") (auto simp: init_master_def)
  obtain G' L' where eg: "expand_graph G L = Inr (G', L')"
    using r by (cases "expand_graph G L") (auto simp: init_refine_def L_def Let_def)
  obtain labels where lb: "labels_of_nodes L' (nodes G') = Inr labels"
    using r eg by (cases "labels_of_nodes L' (nodes G')")
                  (auto simp: init_refine_def L_def Let_def)
  have fields: "self_initial_nodes self0 = nodes G \<and> self_external_labels self0 = labels"
    using r eg lb by (auto simp: init_refine_def L_def Let_def split: sum.splits)
  obtain order ol where o: "self_final_node_order self = Some order"
    "self_ordered_labels self = Some ol"
    "mset order = mset (self_initial_nodes self0)"
    "ol = map (\<lambda>n. the (map_of (self_external_labels self0) n)) order"
    using set_canonical_form_mset[OF c] by blast
  have mo: "mset order = mset (nodes G)" using o(3) fields by simp
  then have so: "set order = set (nodes G)" by (metis set_mset_mset)
  have keep: "\<forall>n \<in> set (nodes G). map_of labels n = map_of L n \<and> map_of L n \<noteq> None"
  proof
    fix n assume n: "n \<in> set (nodes G)"
    have k: "n \<in> set (nodes G') \<and> map_of L' n = map_of L n \<and> map_of L n \<noteq> None"
      by (rule expand_graph_keeps[OF eg n])
    then have "map_of labels n = map_of L' n" using labels_of_nodes_Inr[OF lb] by simp
    then show "map_of labels n = map_of L n \<and> map_of L n \<noteq> None" using k by simp
  qed
  have lo: "ol = map (\<lambda>n. the (map_of L n)) order"
    using o(4) fields keep so by simp
  have "mset ol = image_mset (\<lambda>n. the (map_of L n)) (mset order)" using lo by simp
  then have ml: "mset ol = mset (map (\<lambda>n. the (map_of L n)) (nodes G))" using mo by simp
  have kk: "\<forall>n \<in> set (nodes G). map_of L n \<noteq> None" using keep by simp
  show ?thesis using o(1,2) mo kk lo ml unfolding L_def by blast
qed

text \<open>The path on three nodes with the labels 7, 8, 7.\<close>

theorem ordered_labels_multiset_witness:
  "map_sum id (\<lambda>s. (self_final_node_order s, self_ordered_labels s))
     (init_master path3 (Some [(0, 7), (1, 8), (2, 7)]))
     = Inr (Some [0, 2, 1], Some [7, 7, 8])
   \<and> mset [7, 7, 8 :: int]
       = mset (map (\<lambda>n. the (map_of (default_labels path3 (Some [(0, 7), (1, 8), (2, 7)])) n))
                (nodes path3))"
proof -
  have ev: "map_sum id (\<lambda>s. (self_final_node_order s, self_ordered_labels s))
     (init_master path3 (Some [(0, 7), (1, 8), (2, 7)]))
     = Inr (Some [0, 2, 1], Some [7, 7, 8])"
    by code_simp
  then obtain self where s: "init_master path3 (Some [(0, 7), (1, 8), (2, 7)]) = Inr self"
    and f: "self_final_node_order self = Some [0, 2, 1]" "self_ordered_labels self = Some [7, 7, 8]"
    by (cases "init_master path3 (Some [(0, 7), (1, 8), (2, 7)])") auto
  obtain order ol where o: "self_ordered_labels self = Some ol"
    "mset ol = mset (map (\<lambda>n. the (map_of (default_labels path3
                 (Some [(0, 7), (1, 8), (2, 7)])) n)) (nodes path3))"
    using ordered_labels_multiset[OF s] by blast
  have "ol = [7, 7, 8]" using o(1) f(2) by simp
  then show ?thesis using ev o(2) by simp
qed


section \<open>Properties of the comparison\<close>

text \<open>
  C4, as amended. A mixed pair is not refused: \<^verbatim>\<open>full_comparison\<close> prints the line
  ``This comparison should never occur!'' and returns \<open>-1\<close> when the plain instance is
  on the left and 1 when it is on the right, so that \<^verbatim>\<open><\<close> and \<^verbatim>\<open>==\<close> answer as for any
  other pair and the computation goes on.
\<close>

theorem full_comparison_mixed_pair:
  "full_comparison (Plain_instance p) (Nodewise_instance q)
     = ([Text ''This comparison should never occur!''], Inr (- 1))
   \<and> full_comparison (Nodewise_instance q) (Plain_instance p)
     = ([Text ''This comparison should never occur!''], Inr 1)
   \<and> instance_lt (Plain_instance p) (Nodewise_instance q)
     = ([Text ''This comparison should never occur!''], Inr True)
   \<and> instance_eq (Nodewise_instance q) (Plain_instance p)
     = ([Text ''This comparison should never occur!''], Inr False)"
  by (simp add: instance_lt_def instance_eq_def)

text \<open>
  A plain and a top-level instance of two isolated nodes: the comparison returns a
  verdict in both directions.
\<close>

theorem full_comparison_mixed_pair_counterexample:
  "(case (init_plain two_isolated None, init_master two_isolated None) of
      (Inr p, Inr q) \<Rightarrow>
        full_comparison (Plain_instance p) (Nodewise_instance q)
          = ([Text ''This comparison should never occur!''], Inr (- 1))
        \<and> full_comparison (Nodewise_instance q) (Plain_instance p)
          = ([Text ''This comparison should never occur!''], Inr 1)
    | _ \<Rightarrow> False)"
proof -
  have a: "(case init_plain two_isolated None of Inr p \<Rightarrow> True | Inl e \<Rightarrow> False)" by code_simp
  have b: "(case init_master two_isolated None of Inr p \<Rightarrow> True | Inl e \<Rightarrow> False)" by code_simp
  obtain p where p: "init_plain two_isolated None = Inr p"
    using a by (cases "init_plain two_isolated None") auto
  obtain q where q: "init_master two_isolated None = Inr q"
    using b by (cases "init_master two_isolated None") auto
  show ?thesis by (simp add: p q)
qed

end
